theory Spec2Isabelle
  imports Main
begin

section \<open>The swingset runner\<close>

text \<open>
  The runner of \<^verbatim>\<open>createSwingsetRunner\<close> drives an external engine (the swingset
  controller) one crank at a time, checkpoints the store at block ends, and correlates the
  messages it injects with the values the engine later hands to \<^verbatim>\<open>doOutboundBridge\<close>.

  JavaScript numbers are modelled as \<^typ>\<open>int\<close>: every number below is an integer-valued
  counter (a crank count, a step budget, a message id), on which double arithmetic is exact
  up to \<open>2 ^ 53\<close>. Clock readings and the elapsed time returned by \<^verbatim>\<open>runBatch\<close> are not
  modelled. The diagnostic switches (\<^verbatim>\<open>verbose\<close>, \<^verbatim>\<open>doDumps\<close>, \<^verbatim>\<open>doAudits\<close>, \<^verbatim>\<open>forceGC\<close>,
  the stat logger) are constants of the source that are all off, so their branches are left
  out.
\<close>

subsection \<open>State\<close>

text \<open>
  The \<^verbatim>\<open>msgId\<close> that the engine hands to \<^verbatim>\<open>doOutboundBridge\<close> is used as a property key of
  the plain object \<^verbatim>\<open>messageResponsePromises\<close>. \<open>Index i\<close> is a key that is the decimal form
  of the integer \<open>i\<close> (the number itself, or that string); \<open>Name n\<close> is any other property
  name.
\<close>

datatype msgId = Index int | Name string

text \<open>
  The calls the runner makes to its collaborators, in order: \<^verbatim>\<open>controller.step()\<close>
  returning a number or throwing, \<^verbatim>\<open>store.commit()\<close>, \<^verbatim>\<open>console.warn\<close> in
  \<^verbatim>\<open>doOutboundBridge\<close>, and \<^verbatim>\<open>devices.bridge.deliverInbound\<close>.
\<close>

datatype event = Stepped int | StepThrew | Committed | Warned msgId | Delivered int

text \<open>
  The closure variables of \<^verbatim>\<open>createSwingsetRunner\<close>. The engine state \<open>'e\<close> stands for the
  controller together with the working contents of \<^verbatim>\<open>store.storage\<close>; \<open>durable\<close> is what the
  last \<^verbatim>\<open>store.commit()\<close> made durable. The objects made by \<^verbatim>\<open>defer()\<close> live in \<open>promises\<close>,
  addressed by their index: \<open>None\<close> is a pending promise, \<open>Some v\<close> one resolved with \<open>v\<close>.
  \<^verbatim>\<open>messageResponsePromises\<close> maps a message id to the address of its deferred.
\<close>

record ('e, 'v) runner =
  engine :: 'e
  durable :: "'e option"
  crankNumber :: int
  messageCount :: int
  messageResponsePromises :: "int \<rightharpoonup> nat"
  promises :: "'v option list"
  events :: "event list"

definition initRunner :: "'e \<Rightarrow> ('e, 'v) runner" where
  "initRunner e = \<lparr>engine = e, durable = None, crankNumber = 0, messageCount = 0,
     messageResponsePromises = Map.empty, promises = [], events = []\<rparr>"

text \<open>
  The engine is a parameter. What it does in one call is an activity: it finishes with a
  result and a new engine state, or it calls \<^verbatim>\<open>doOutboundBridge(msgId, value)\<close> and goes on
  from there, one way when the callback returned (\<open>True\<close>) and another when it threw
  (\<open>False\<close>). One call of \<^verbatim>\<open>controller.step()\<close> on engine state \<open>e\<close> finishes by throwing
  (\<open>Inl\<close>) or by returning the number of cranks it ran (\<open>Inr\<close>).
\<close>

datatype ('r, 'e, 'v) activity =
    Finish 'r 'e
  | CallOutbound msgId 'v "bool \<Rightarrow> ('r, 'e, 'v) activity"

type_synonym ('e, 'x, 'v) stepFn = "'e \<Rightarrow> ('x + int, 'e, 'v) activity"

text \<open>The results and engine states an activity can finish with.\<close>

primrec finishes :: "('r, 'e, 'v) activity \<Rightarrow> ('r \<times> 'e) set" where
  "finishes (Finish r e) = {(r, e)}"
| "finishes (CallOutbound msgId val rest) = finishes (rest True) \<union> finishes (rest False)"

subsection \<open>The outbound bridge\<close>

text \<open>
  \<^verbatim>\<open>defer()\<close> makes a new pending promise. The \<^verbatim>\<open>resolve\<close> function of a JavaScript promise
  settles it on its first call and does nothing on any later call.
\<close>

definition defer' :: "('e, 'v) runner \<Rightarrow> nat \<times> ('e, 'v) runner" where
  "defer' s = (length (promises s), s\<lparr>promises := promises s @ [None]\<rparr>)"

definition resolve :: "nat \<Rightarrow> 'v \<Rightarrow> 'v option list \<Rightarrow> 'v option list" where
  "resolve d v ps =
     (if d < length ps
      then (case ps ! d of None \<Rightarrow> ps[d := Some v] | Some _ \<Rightarrow> ps)
      else ps)"

text \<open>
  \<^verbatim>\<open>messageResponsePromises\<close> starts as \<^verbatim>\<open>{}\<close>, a plain object, so a lookup that finds no own
  property goes on to \<^verbatim>\<open>Object.prototype\<close>. These are the property names found there; each
  of them gives a function or an object, which is truthy and has no \<^verbatim>\<open>resolve\<close>.
\<close>

definition objectPrototype :: "string list" where
  "objectPrototype =
     [''constructor'', ''hasOwnProperty'', ''isPrototypeOf'', ''propertyIsEnumerable'',
      ''toLocaleString'', ''toString'', ''valueOf'', ''__proto__'',
      ''__defineGetter__'', ''__defineSetter__'', ''__lookupGetter__'', ''__lookupSetter__'']"

datatype jsError = TypeError

text \<open>
  \<^verbatim>\<open>doOutboundBridge(msgId, value)\<close>. The own properties of the mapping are the entries that
  \<^verbatim>\<open>handleMessage\<close> stored under its numeric ids. For an inherited name the guard
  \<^verbatim>\<open>!messageResponsePromises[msgId]\<close> is false, and calling the missing \<^verbatim>\<open>resolve\<close> of what
  was found throws a \<^verbatim>\<open>TypeError\<close>.
\<close>

definition doOutboundBridge ::
  "msgId \<Rightarrow> 'v \<Rightarrow> ('e, 'v) runner \<Rightarrow> jsError + ('e, 'v) runner" where
  "doOutboundBridge msgId val s =
     (case msgId of
        Index i \<Rightarrow>
          (case messageResponsePromises s i of
             None \<Rightarrow> Inr (s\<lparr>events := events s @ [Warned msgId]\<rparr>)
           | Some d \<Rightarrow> Inr (s\<lparr>promises := resolve d val (promises s)\<rparr>))
      | Name n \<Rightarrow>
          if n \<in> set objectPrototype then Inl TypeError
          else Inr (s\<lparr>events := events s @ [Warned msgId]\<rparr>))"

text \<open>
  The runner's side of an activity of the engine: each call of the callback is made on the
  current state, and the engine goes on according to its outcome.
\<close>

primrec perform :: "('r, 'e, 'v) activity \<Rightarrow> ('e, 'v) runner \<Rightarrow> 'r \<times> ('e, 'v) runner" where
  "perform (Finish r e') s = (r, s\<lparr>engine := e'\<rparr>)"
| "perform (CallOutbound msgId val rest) s =
     (case doOutboundBridge msgId val s of
        Inl _ \<Rightarrow> perform (rest False) s
      | Inr s' \<Rightarrow> perform (rest True) s')"

subsection \<open>Blocks and batches\<close>

text \<open>\<^verbatim>\<open>await controller.step()\<close>, with the callbacks the engine makes during the step.\<close>

definition callStep ::
  "('e, 'x, 'v) stepFn \<Rightarrow> ('e, 'v) runner \<Rightarrow> ('x + int) \<times> ('e, 'v) runner" where
  "callStep step s =
     (case perform (step (engine s)) s of (r, s1) \<Rightarrow>
        (r, s1\<lparr>events := events s1 @
                 [case r of Inl _ \<Rightarrow> StepThrew | Inr n \<Rightarrow> Stepped n]\<rparr>))"

text \<open>\<^verbatim>\<open>store.commit()\<close>: the working state becomes the durable one.\<close>

definition commit :: "('e, 'v) runner \<Rightarrow> ('e, 'v) runner" where
  "commit s = s\<lparr>durable := Some (engine s), events := events s @ [Committed]\<rparr>"

text \<open>The \<^verbatim>\<open>while (requestedSteps > 0)\<close> loop of \<^verbatim>\<open>runBlock\<close>.\<close>

function runBlockLoop ::
  "('e, 'x, 'v) stepFn \<Rightarrow> int \<Rightarrow> int \<Rightarrow> ('e, 'v) runner \<Rightarrow> ('x + int) \<times> ('e, 'v) runner" where
  "runBlockLoop step requestedSteps actualSteps s =
     (if requestedSteps > 0
      then (case callStep step s of
              (Inl x, s') \<Rightarrow> (Inl x, s')
            | (Inr stepped, s') \<Rightarrow>
                if stepped < 1 then (Inr actualSteps, s')
                else runBlockLoop step (requestedSteps - 1) (actualSteps + stepped)
                       (s'\<lparr>crankNumber := crankNumber s' + stepped\<rparr>))
      else (Inr actualSteps, s))"
  by pat_completeness auto
termination
  by (relation "measure (\<lambda>(step, requestedSteps, actualSteps, s). nat requestedSteps)") auto

definition runBlock ::
  "('e, 'x, 'v) stepFn \<Rightarrow> int \<Rightarrow> bool \<Rightarrow> ('e, 'v) runner \<Rightarrow> ('x + int) \<times> ('e, 'v) runner" where
  "runBlock step requestedSteps doCommit s =
     (case runBlockLoop step requestedSteps 0 s of
        (Inl x, s') \<Rightarrow> (Inl x, s')
      | (Inr actualSteps, s') \<Rightarrow> (Inr actualSteps, if doCommit then commit s' else s'))"

text \<open>
  The \<^verbatim>\<open>do ... while\<close> loop of \<^verbatim>\<open>runBatch\<close>. It need not end (an engine that never runs
  dry, a block size of zero), so it returns an option and \<open>None\<close> is a loop that runs forever.
\<close>

partial_function (option) runBatchLoop ::
  "('e, 'x, 'v) stepFn \<Rightarrow> int \<Rightarrow> bool \<Rightarrow> bool \<Rightarrow> int \<Rightarrow> int \<Rightarrow> ('e, 'v) runner \<Rightarrow>
     (('x + int) \<times> ('e, 'v) runner) option" where
  "runBatchLoop step blockSize runAll doCommit stepLimit totalSteps s =
     (case runBlock step blockSize doCommit s of
        (Inl x, s') \<Rightarrow> Some (Inl x, s')
      | (Inr steps, s') \<Rightarrow>
          if (runAll \<or> stepLimit - steps > 0) \<and> steps \<ge> blockSize
          then runBatchLoop step blockSize runAll doCommit (stepLimit - steps)
                 (totalSteps + steps) s'
          else Some (Inr (totalSteps + steps), s'))"

definition runBatch ::
  "('e, 'x, 'v) stepFn \<Rightarrow> int \<Rightarrow> int \<Rightarrow> bool \<Rightarrow> ('e, 'v) runner \<Rightarrow>
     (('x + int) \<times> ('e, 'v) runner) option" where
  "runBatch step blockSize stepLimit doCommit s =
     runBatchLoop step blockSize (stepLimit = 0) doCommit stepLimit 0 s"

subsection \<open>The message bridge\<close>

text \<open>
  \<^verbatim>\<open>devices.bridge.deliverInbound(messageId, ...args)\<close> is a parameter too: an activity of
  the engine that finishes by throwing or returning, and may call \<^verbatim>\<open>doOutboundBridge\<close> on
  the way.
\<close>

type_synonym ('e, 'x, 'v, 'a) deliverFn =
  "int \<Rightarrow> 'a \<Rightarrow> 'e \<Rightarrow> ('x + unit, 'e, 'v) activity"

definition callDeliver ::
  "('e, 'x, 'v, 'a) deliverFn \<Rightarrow> int \<Rightarrow> 'a \<Rightarrow> ('e, 'v) runner \<Rightarrow> ('x + unit) \<times> ('e, 'v) runner" where
  "callDeliver deliver messageId args s =
     perform (deliver messageId args (engine s))
       (s\<lparr>events := events s @ [Delivered messageId]\<rparr>)"

text \<open>
  \<^verbatim>\<open>handleMessage(...args)\<close>. The result is the address of \<^verbatim>\<open>deferred.promise\<close>, or the
  exception that \<^verbatim>\<open>deliverInbound\<close> or \<^verbatim>\<open>runBatch\<close> threw; \<open>None\<close> when \<^verbatim>\<open>runBatch\<close> never
  returns. \<open>blockSize\<close> and \<open>blockMode\<close> are the constants of the source (200 and false).
\<close>

definition handleMessage ::
  "('e, 'x, 'v) stepFn \<Rightarrow> ('e, 'x, 'v, 'a) deliverFn \<Rightarrow> int \<Rightarrow> bool \<Rightarrow> 'a \<Rightarrow> ('e, 'v) runner \<Rightarrow>
     (('x + nat) \<times> ('e, 'v) runner) option" where
  "handleMessage step deliver blockSize blockMode args s =
     (let messageId = messageCount s;
          s1 = s\<lparr>messageCount := messageCount s + 1\<rparr>;
          (deferred, s2) = defer' s1;
          s3 = s2\<lparr>messageResponsePromises := (messageResponsePromises s2)(messageId \<mapsto> deferred)\<rparr>
      in case callDeliver deliver messageId args s3 of
           (Inl x, s4) \<Rightarrow> Some (Inl x, s4)
         | (Inr _, s4) \<Rightarrow>
             (case runBatch step blockSize 0 blockMode s4 of
                None \<Rightarrow> None
              | Some (Inl x, s5) \<Rightarrow> Some (Inl x, s5)
              | Some (Inr _, s5) \<Rightarrow> Some (Inr deferred, s5)))"

text \<open>
  \<^verbatim>\<open>createSwingsetRunner\<close> from the point where the controller exists: the first
  \<^verbatim>\<open>runBatch(0, blockMode)\<close>, after which the runner is handed out.
\<close>

definition createSwingsetRunner ::
  "('e, 'x, 'v) stepFn \<Rightarrow> int \<Rightarrow> bool \<Rightarrow> 'e \<Rightarrow> ('x + ('e, 'v) runner) option" where
  "createSwingsetRunner step blockSize blockMode e =
     (case runBatch step blockSize 0 blockMode (initRunner e) of
        None \<Rightarrow> None
      | Some (Inl x, s) \<Rightarrow> Some (Inl x)
      | Some (Inr _, s) \<Rightarrow> Some (Inr s))"

text \<open>
  The states of one runner instance: the one \<^verbatim>\<open>createSwingsetRunner\<close> returns, and the
  state after each further call of \<^verbatim>\<open>handleMessage\<close>, made one after the other as
  \<^verbatim>\<open>replayPastFromDisk\<close> does, whether the call returned a promise or threw.
\<close>

inductive reachable ::
  "('e, 'x, 'v) stepFn \<Rightarrow> ('e, 'x, 'v, 'a) deliverFn \<Rightarrow> int \<Rightarrow> bool \<Rightarrow> 'e \<Rightarrow> ('e, 'v) runner \<Rightarrow> bool"
  for step :: "('e, 'x, 'v) stepFn" and deliver :: "('e, 'x, 'v, 'a) deliverFn"
    and blockSize :: int and blockMode :: bool and e :: 'e where
  created: "createSwingsetRunner step blockSize blockMode e = Some (Inr s) \<Longrightarrow>
     reachable step deliver blockSize blockMode e s"
| handled: "reachable step deliver blockSize blockMode e s \<Longrightarrow>
     handleMessage step deliver blockSize blockMode args s = Some (r, s') \<Longrightarrow>
     reachable step deliver blockSize blockMode e s'"

subsection \<open>Reading the event log\<close>

fun commits :: "event list \<Rightarrow> nat" where
  "commits [] = 0"
| "commits (Committed # es) = Suc (commits es)"
| "commits (_ # es) = commits es"

fun stepResults :: "event list \<Rightarrow> int list" where
  "stepResults [] = []"
| "stepResults (Stepped n # es) = n # stepResults es"
| "stepResults (_ # es) = stepResults es"

fun stepCalls :: "event list \<Rightarrow> nat" where
  "stepCalls [] = 0"
| "stepCalls (Stepped n # es) = Suc (stepCalls es)"
| "stepCalls (StepThrew # es) = Suc (stepCalls es)"
| "stepCalls (_ # es) = stepCalls es"

fun issued :: "event list \<Rightarrow> int list" where
  "issued [] = []"
| "issued (Delivered i # es) = i # issued es"
| "issued (_ # es) = issued es"

text \<open>The numeric ids for which a missing entry was reported.\<close>

fun warned :: "event list \<Rightarrow> int list" where
  "warned [] = []"
| "warned (Warned (Index i) # es) = i # warned es"
| "warned (_ # es) = warned es"

text \<open>
  No warning for a message id after that id was handed to \<^verbatim>\<open>deliverInbound\<close>: \<open>ds\<close> are the
  ids delivered so far.
\<close>

fun noWarnAfterDeliver :: "int list \<Rightarrow> event list \<Rightarrow> bool" where
  "noWarnAfterDeliver ds [] = True"
| "noWarnAfterDeliver ds (Delivered i # es) = noWarnAfterDeliver (i # ds) es"
| "noWarnAfterDeliver ds (Warned (Index i) # es) = (i \<notin> set ds \<and> noWarnAfterDeliver ds es)"
| "noWarnAfterDeliver ds (_ # es) = noWarnAfterDeliver ds es"

text \<open>
  What running the engine leaves of the bridge between \<open>s\<close> and \<open>s'\<close>: the message counter,
  the mapping and the number of promises are the same, nothing was delivered, and the only
  warnings are for ids that have no entry in the mapping.
\<close>

definition bridgeKept :: "('e, 'v) runner \<Rightarrow> ('e, 'v) runner \<Rightarrow> bool" where
  "bridgeKept s s' =
     (messageCount s' = messageCount s \<and>
      messageResponsePromises s' = messageResponsePromises s \<and>
      length (promises s') = length (promises s) \<and>
      (\<exists>evs. events s' = events s @ evs \<and> issued evs = [] \<and>
         set (warned evs) \<inter> dom (messageResponsePromises s) = {}))"

text \<open>A stretch of the log that holds nothing but warnings.\<close>

definition warningsOnly :: "event list \<Rightarrow> bool" where
  "warningsOnly evs = (\<forall>ev\<in>set evs. case ev of Warned _ \<Rightarrow> True | _ \<Rightarrow> False)"

subsection \<open>An engine with a queue of \<open>k\<close> units\<close>

text \<open>
  Modelled from the spec: the engine itself (the swingset controller) is an external
  package. This is the engine of the spec's testable properties, whose queue holds \<open>k\<close>
  units of work: a step runs one unit and reports 1, or reports 0 when the queue is empty.
  It never throws (so its exceptions are of type \<open>unit\<close>) and makes no outbound call.
\<close>

definition queueStep :: "(nat, unit, 'v) stepFn" where
  "queueStep k = (if k = 0 then Finish (Inr 0) 0 else Finish (Inr 1) (k - 1))"

text \<open>
  Modelled from the spec: the bridge device (\<^verbatim>\<open>./swingset-devices\<close>) is not among the
  sources. Delivering a message to the engine's inbound channel, on the queue engine, puts
  one unit of work in the queue. \<open>queueDeliver\<close> makes no outbound call; with \<open>echoDeliver\<close>
  the engine calls \<^verbatim>\<open>doOutboundBridge\<close> at once, with the id of the message and its argument
  as the value.
\<close>

definition queueDeliver :: "(nat, unit, 'v, 'a) deliverFn" where
  "queueDeliver messageId args k = Finish (Inr ()) (Suc k)"

definition echoDeliver :: "(nat, unit, 'v, 'v) deliverFn" where
  "echoDeliver messageId args k =
     CallOutbound (Index messageId) args (\<lambda>returned. Finish (Inr ()) (Suc k))"

text \<open>
  Modelled from the spec: an engine failure. \<open>panicStep\<close> runs the units of its queue like
  \<open>queueStep\<close>, and throws when it is called with the queue empty.
\<close>

definition panicStep :: "(nat, string, 'v) stepFn" where
  "panicStep k = (if k = 0 then Finish (Inl ''kernel panic'') 0 else Finish (Inr 1) (k - 1))"



section \<open>The sealer\<close>

text \<open>
  \<^verbatim>\<open>makeSealer\<close> keeps a \<^verbatim>\<open>WeakMap\<close> from the objects \<^verbatim>\<open>seal\<close> made to the values they
  seal. A \<^verbatim>\<open>WeakMap\<close> is keyed by object identity, so objects live in a heap and a reference
  is the index of its object; \<^verbatim>\<open>get\<close> of a key that was never \<^verbatim>\<open>set\<close>, or of a value that is
  not an object, is \<^verbatim>\<open>undefined\<close>.
\<close>

datatype jsval = Undefined | Num int | Str string | Ref nat

type_synonym obj = "(string \<times> jsval) list"

record sealer =
  heap :: "obj list"
  unsealMap :: "nat \<rightharpoonup> jsval"

definition makeSealer :: "obj list \<Rightarrow> sealer" where
  "makeSealer h = \<lparr>heap = h, unsealMap = Map.empty\<rparr>"

definition seal :: "jsval \<Rightarrow> jsval \<Rightarrow> sealer \<Rightarrow> jsval \<times> sealer" where
  "seal original label st =
     (let sealed = length (heap st)
      in (Ref sealed,
          st\<lparr>heap := heap st @ [[(''type'', Str ''sealed''), (''label'', label)]],
             unsealMap := (unsealMap st)(sealed \<mapsto> original)\<rparr>))"

definition unseal :: "jsval \<Rightarrow> sealer \<Rightarrow> jsval" where
  "unseal sealed st =
     (case sealed of
        Ref a \<Rightarrow> (case unsealMap st a of None \<Rightarrow> Undefined | Some original \<Rightarrow> original)
      | _ \<Rightarrow> Undefined)"

text \<open>
  What a program does with one sealer: it seals values, and in between it creates other
  objects (those of another sealer among them). \<open>sealerRun\<close> returns the final state and the
  pairs of a sealed box and the value sealed in it, in order.
\<close>

datatype sealerOp = Seal jsval jsval | NewObject obj

fun sealerRun :: "sealerOp list \<Rightarrow> sealer \<Rightarrow> (jsval \<times> jsval) list \<times> sealer" where
  "sealerRun [] st = ([], st)"
| "sealerRun (Seal original label # ops) st =
     (case seal original label st of (sealed, st') \<Rightarrow>
        (case sealerRun ops st' of (boxes, st'') \<Rightarrow> ((sealed, original) # boxes, st'')))"
| "sealerRun (NewObject ob # ops) st = sealerRun ops (st\<lparr>heap := heap st @ [ob]\<rparr>)"

section \<open>Properties\<close>

declare runBlockLoop.simps [simp del]

subsection \<open>The event log\<close>

lemma commits_append [simp]: "commits (xs @ ys) = commits xs + commits ys"
  by (induction xs rule: commits.induct) auto

lemma stepResults_append [simp]: "stepResults (xs @ ys) = stepResults xs @ stepResults ys"
  by (induction xs rule: stepResults.induct) auto

lemma stepCalls_append [simp]: "stepCalls (xs @ ys) = stepCalls xs + stepCalls ys"
  by (induction xs rule: stepCalls.induct) auto

lemma issued_append [simp]: "issued (xs @ ys) = issued xs @ issued ys"
  by (induction xs rule: issued.induct) auto

lemma warned_append [simp]: "warned (xs @ ys) = warned xs @ warned ys"
  by (induction xs rule: warned.induct) auto

lemma warningsOnly_simps [simp]:
  "warningsOnly []" "warningsOnly [Warned k]"
  "warningsOnly (xs @ ys) = (warningsOnly xs \<and> warningsOnly ys)"
  by (auto simp: warningsOnly_def)

lemma log_of_warnings:
  assumes "warningsOnly ws"
  shows "commits ws = 0" "stepResults ws = []" "stepCalls ws = 0" "issued ws = []"
    "StepThrew \<notin> set ws"
  using assms
  by (induction ws; auto simp: warningsOnly_def split: event.splits)+

lemma noWarnAfterDeliver_append:
  "noWarnAfterDeliver ds (xs @ ys) =
     (noWarnAfterDeliver ds xs \<and> noWarnAfterDeliver (rev (issued xs) @ ds) ys)"
  by (induction ds xs rule: noWarnAfterDeliver.induct) auto

subsection \<open>Outbound calls and single steps\<close>

text \<open>
  A callback that returns leaves everything but the promises and the log as it was, and
  adds to the log at most a warning, for an id that has no entry.
\<close>

lemma doOutboundBridge_returns:
  assumes "doOutboundBridge k v s = Inr s'"
  shows "engine s' = engine s" "durable s' = durable s" "crankNumber s' = crankNumber s"
    "messageCount s' = messageCount s"
    "messageResponsePromises s' = messageResponsePromises s"
    "length (promises s') = length (promises s)"
    "\<exists>ws. events s' = events s @ ws \<and> warningsOnly ws \<and>
       set (warned ws) \<inter> dom (messageResponsePromises s) = {}"
proof -
  have main: "engine s' = engine s \<and> durable s' = durable s \<and> crankNumber s' = crankNumber s \<and>
      messageCount s' = messageCount s \<and>
      messageResponsePromises s' = messageResponsePromises s \<and>
      length (promises s') = length (promises s) \<and>
      (events s' = events s @ [] \<or>
       events s' = events s @ [Warned k] \<and>
         set (warned [Warned k]) \<inter> dom (messageResponsePromises s) = {})"
    using assms
    by (cases k)
      (auto simp: doOutboundBridge_def resolve_def split: option.splits if_splits)
  then have "\<exists>ws. events s' = events s @ ws \<and> warningsOnly ws \<and>
       set (warned ws) \<inter> dom (messageResponsePromises s) = {}"
    by (metis warningsOnly_simps(1,2) warned.simps(1) empty_set inf_bot_left)
  with main show "engine s' = engine s" "durable s' = durable s" "crankNumber s' = crankNumber s"
    "messageCount s' = messageCount s"
    "messageResponsePromises s' = messageResponsePromises s"
    "length (promises s') = length (promises s)"
    "\<exists>ws. events s' = events s @ ws \<and> warningsOnly ws \<and>
       set (warned ws) \<inter> dom (messageResponsePromises s) = {}"
    by simp_all
qed

lemma perform_frame:
  "perform a s = (r, s') \<Longrightarrow>
     (r, engine s') \<in> finishes a \<and> durable s' = durable s \<and> crankNumber s' = crankNumber s \<and>
     messageCount s' = messageCount s \<and>
     messageResponsePromises s' = messageResponsePromises s \<and>
     length (promises s') = length (promises s) \<and>
     (\<exists>ws. events s' = events s @ ws \<and> warningsOnly ws \<and>
        set (warned ws) \<inter> dom (messageResponsePromises s) = {})"
proof (induction a arbitrary: s)
  case (Finish r0 e0)
  then have s': "s' = s\<lparr>engine := e0\<rparr>" and r: "r = r0" by auto
  show ?case unfolding s' r by (auto intro: exI [of _ "[]"])
next
  case (CallOutbound k v rest)
  show ?case
  proof (cases "doOutboundBridge k v s")
    case (Inl err)
    then have "perform (rest False) s = (r, s')" using CallOutbound.prems by simp
    from CallOutbound.IH [OF _ this] show ?thesis by simp
  next
    case (Inr s1)
    then have run: "perform (rest True) s1 = (r, s')" using CallOutbound.prems by simp
    note one = doOutboundBridge_returns [OF Inr]
    note two = CallOutbound.IH [OF _ run, simplified]
    obtain ws1 where w1: "events s1 = events s @ ws1" "warningsOnly ws1"
        "set (warned ws1) \<inter> dom (messageResponsePromises s) = {}"
      using one(7) by blast
    obtain ws2 where w2: "events s' = events s1 @ ws2" "warningsOnly ws2"
        "set (warned ws2) \<inter> dom (messageResponsePromises s1) = {}"
      using two by blast
    have "events s' = events s @ (ws1 @ ws2) \<and> warningsOnly (ws1 @ ws2) \<and>
        set (warned (ws1 @ ws2)) \<inter> dom (messageResponsePromises s) = {}"
      using w1 w2 one(5) by auto
    then have "\<exists>ws. events s' = events s @ ws \<and> warningsOnly ws \<and>
        set (warned ws) \<inter> dom (messageResponsePromises s) = {}"
      by blast
    then show ?thesis using one two by simp
  qed
qed

lemma callStep_frame:
  assumes "callStep step s = (r, s')"
  shows "(r, engine s') \<in> finishes (step (engine s))"
    "durable s' = durable s" "crankNumber s' = crankNumber s" "messageCount s' = messageCount s"
    "messageResponsePromises s' = messageResponsePromises s"
    "length (promises s') = length (promises s)"
proof -
  obtain s1 where p: "perform (step (engine s)) s = (r, s1)"
      and s': "s' = s1\<lparr>events := events s1 @
                 [case r of Inl _ \<Rightarrow> StepThrew | Inr n \<Rightarrow> Stepped n]\<rparr>"
    using assms by (auto simp: callStep_def split: prod.splits)
  show "(r, engine s') \<in> finishes (step (engine s))"
    "durable s' = durable s" "crankNumber s' = crankNumber s" "messageCount s' = messageCount s"
    "messageResponsePromises s' = messageResponsePromises s"
    "length (promises s') = length (promises s)"
    using perform_frame [OF p] unfolding s' by simp_all
qed

lemma callStep_events:
  assumes "callStep step s = (r, s')"
  shows "\<exists>ws. events s' = events s @ ws @
            [case r of Inl _ \<Rightarrow> StepThrew | Inr n \<Rightarrow> Stepped n] \<and>
          warningsOnly ws \<and> set (warned ws) \<inter> dom (messageResponsePromises s) = {}"
proof -
  obtain s1 where p: "perform (step (engine s)) s = (r, s1)"
      and s': "s' = s1\<lparr>events := events s1 @
                 [case r of Inl _ \<Rightarrow> StepThrew | Inr n \<Rightarrow> Stepped n]\<rparr>"
    using assms by (auto simp: callStep_def split: prod.splits)
  obtain ws where "events s1 = events s @ ws" "warningsOnly ws"
      "set (warned ws) \<inter> dom (messageResponsePromises s) = {}"
    using perform_frame [OF p] by blast
  then show ?thesis unfolding s' by auto
qed

subsection \<open>Blocks\<close>

lemma runBlockLoop_cases:
  assumes "runBlockLoop step n acc s = (r, s')"
  obtains (stop) "n \<le> 0" "r = Inr acc" "s' = s"
  | (threw) x where "0 < n" "callStep step s = (Inl x, s')" "r = Inl x"
  | (dry) k where "0 < n" "callStep step s = (Inr k, s')" "k < 1" "r = Inr acc"
  | (again) k s1 where "0 < n" "callStep step s = (Inr k, s1)" "1 \<le> k"
      "runBlockLoop step (n - 1) (acc + k) (s1\<lparr>crankNumber := crankNumber s1 + k\<rparr>) = (r, s')"
  using assms
  by (subst (asm) runBlockLoop.simps) (auto split: if_splits prod.splits sum.splits)

text \<open>What a block leaves alone, and the shape of what it appends to the log.\<close>

lemma runBlockLoop_frame:
  "runBlockLoop step n acc s = (r, s') \<Longrightarrow>
     durable s' = durable s \<and> messageCount s' = messageCount s \<and>
     messageResponsePromises s' = messageResponsePromises s \<and>
     length (promises s') = length (promises s)"
proof (induction step n acc s rule: runBlockLoop.induct)
  case (1 step n acc s)
  from "1.prems" show ?case
  proof (cases rule: runBlockLoop_cases)
    case (again k s1)
    have "durable s' = durable (s1\<lparr>crankNumber := crankNumber s1 + k\<rparr>) \<and>
          messageCount s' = messageCount (s1\<lparr>crankNumber := crankNumber s1 + k\<rparr>) \<and>
          messageResponsePromises s' = messageResponsePromises (s1\<lparr>crankNumber := crankNumber s1 + k\<rparr>) \<and>
          length (promises s') = length (promises (s1\<lparr>crankNumber := crankNumber s1 + k\<rparr>))"
      using "1.IH" [OF again(1) again(2) [symmetric] refl] again by simp
    then show ?thesis using callStep_frame [OF again(2)] by simp
  next
    case stop
    then show ?thesis by simp
  next
    case (threw x)
    then show ?thesis using callStep_frame [OF threw(2)] by simp
  next
    case (dry k)
    then show ?thesis using callStep_frame [OF dry(2)] by simp
  qed
qed

lemma runBlockLoop_log:
  "runBlockLoop step n acc s = (r, s') \<Longrightarrow>
     \<exists>evs. events s' = events s @ evs \<and> commits evs = 0 \<and> issued evs = [] \<and>
       set (warned evs) \<inter> dom (messageResponsePromises s) = {}"
proof (induction step n acc s rule: runBlockLoop.induct)
  case (1 step n acc s)
  have one: "\<exists>evs. events s1 = events s @ evs \<and> commits evs = 0 \<and> issued evs = [] \<and>
       set (warned evs) \<inter> dom (messageResponsePromises s) = {}"
    if cs: "callStep step s = (r1, s1)" for r1 s1
  proof -
    obtain ws where ws: "events s1 = events s @ ws @
            [case r1 of Inl _ \<Rightarrow> StepThrew | Inr n \<Rightarrow> Stepped n]" "warningsOnly ws"
        "set (warned ws) \<inter> dom (messageResponsePromises s) = {}"
      using callStep_events [OF cs] by blast
    let ?evs = "ws @ [case r1 of Inl _ \<Rightarrow> StepThrew | Inr n \<Rightarrow> Stepped n]"
    have "events s1 = events s @ ?evs \<and> commits ?evs = 0 \<and> issued ?evs = [] \<and>
       set (warned ?evs) \<inter> dom (messageResponsePromises s) = {}"
      using ws log_of_warnings [OF ws(2)] by (auto split: sum.splits)
    then show ?thesis by blast
  qed
  from "1.prems" show ?case
  proof (cases rule: runBlockLoop_cases)
    case (again k s1)
    let ?s2 = "s1\<lparr>crankNumber := crankNumber s1 + k\<rparr>"
    obtain evs1 where e1: "events s1 = events s @ evs1" "commits evs1 = 0" "issued evs1 = []"
       "set (warned evs1) \<inter> dom (messageResponsePromises s) = {}"
      using one [OF again(2)] by blast
    obtain evs2 where e2: "events s' = events ?s2 @ evs2" "commits evs2 = 0" "issued evs2 = []"
       "set (warned evs2) \<inter> dom (messageResponsePromises ?s2) = {}"
      using "1.IH" [OF again(1) again(2) [symmetric] refl] again by auto
    have "messageResponsePromises ?s2 = messageResponsePromises s"
      using callStep_frame [OF again(2)] by simp
    then have "events s' = events s @ (evs1 @ evs2) \<and> commits (evs1 @ evs2) = 0 \<and>
        issued (evs1 @ evs2) = [] \<and>
        set (warned (evs1 @ evs2)) \<inter> dom (messageResponsePromises s) = {}"
      using e1 e2 by auto
    then show ?thesis by blast
  qed (use one in auto)
qed


lemma runBlock_cases:
  assumes "runBlock step n c s = (r, s')"
  obtains (threw) x where "runBlockLoop step n 0 s = (Inl x, s')" "r = Inl x"
  | (ran) a s1 where "runBlockLoop step n 0 s = (Inr a, s1)" "r = Inr a"
      "s' = (if c then commit s1 else s1)"
  using assms by (auto simp: runBlock_def split: prod.splits sum.splits)

subsection \<open>The queue engine\<close>

lemma callStep_queue:
  "callStep queueStep s =
     (if engine s = 0 then (Inr 0, s\<lparr>engine := 0, events := events s @ [Stepped 0]\<rparr>)
      else (Inr 1, s\<lparr>engine := engine s - 1, events := events s @ [Stepped 1]\<rparr>))"
  by (simp add: callStep_def queueStep_def)

lemma queue_loop:
  "engine s = k \<Longrightarrow>
     \<exists>s'. runBlockLoop queueStep (int n) acc s = (Inr (acc + int (min n k)), s') \<and>
       engine s' = k - min n k \<and> crankNumber s' = crankNumber s + int (min n k)"
proof (induction n arbitrary: acc s k)
  case 0
  then show ?case by (simp add: runBlockLoop.simps)
next
  case (Suc n)
  show ?case
  proof (cases "k = 0")
    case True
    then show ?thesis using Suc.prems
      by (subst runBlockLoop.simps) (simp add: callStep_queue)
  next
    case False
    let ?s1 = "s\<lparr>engine := engine s - 1, events := events s @ [Stepped 1]\<rparr>"
    let ?s2 = "?s1\<lparr>crankNumber := crankNumber ?s1 + 1\<rparr>"
    have e2: "engine ?s2 = k - 1" using Suc.prems by simp
    obtain s' where run: "runBlockLoop queueStep (int n) (acc + 1) ?s2 =
          (Inr (acc + 1 + int (min n (k - 1))), s')"
        and eng: "engine s' = (k - 1) - min n (k - 1)"
        and crank: "crankNumber s' = crankNumber ?s2 + int (min n (k - 1))"
      using Suc.IH [OF e2, of "acc + 1"] by blast
    have m: "min (Suc n) k = Suc (min n (k - 1))" using False by (cases k) auto
    have unfold: "runBlockLoop queueStep (int (Suc n)) acc s =
        runBlockLoop queueStep (int n) (acc + 1) ?s2"
      using False Suc.prems
      by (subst runBlockLoop.simps) (simp add: callStep_queue)
    show ?thesis
      using run eng crank unfolding unfold m by (intro exI [of _ s']) auto
  qed
qed

lemma queue_block:
  assumes "engine s = k"
  shows "\<exists>s'. runBlock queueStep (int n) c s = (Inr (int (min n k)), s') \<and>
       engine s' = k - min n k \<and> crankNumber s' = crankNumber s + int (min n k) \<and>
       commits (events s') = commits (events s) + (if c then 1 else 0) \<and>
       durable s' = (if c then Some (k - min n k) else durable s)"
proof -
  obtain s1 where run: "runBlockLoop queueStep (int n) 0 s = (Inr (int (min n k)), s1)"
      and eng: "engine s1 = k - min n k"
      and crank: "crankNumber s1 = crankNumber s + int (min n k)"
    using queue_loop [OF assms, of n 0] by auto
  obtain evs where log: "events s1 = events s @ evs" "commits evs = 0"
    using runBlockLoop_log [OF run] by blast
  have dur: "durable s1 = durable s" using runBlockLoop_frame [OF run] by simp
  show ?thesis
    using run eng crank log dur
    by (intro exI [of _ "if c then commit s1 else s1"]) (simp add: runBlock_def commit_def)
qed

text \<open>Draining the queue: \<open>k div b + 1\<close> blocks, the last one short or empty.\<close>

lemma queue_drain:
  assumes "0 < b" "engine s = k"
  shows "\<exists>s'. runBatchLoop queueStep (int b) True c l t s = Some (Inr (t + int k), s') \<and>
       engine s' = 0 \<and> crankNumber s' = crankNumber s + int k \<and>
       commits (events s') = commits (events s) + (if c then k div b + 1 else 0) \<and>
       durable s' = (if c then Some 0 else durable s)"
  using assms(2)
proof (induction k arbitrary: s l t rule: less_induct)
  case (less k)
  obtain s1 where blk: "runBlock queueStep (int b) c s = (Inr (int (min b k)), s1)"
      and eng: "engine s1 = k - min b k"
      and crank: "crankNumber s1 = crankNumber s + int (min b k)"
      and com: "commits (events s1) = commits (events s) + (if c then 1 else 0)"
      and dur: "durable s1 = (if c then Some (k - min b k) else durable s)"
    using queue_block [OF less.prems, of b c] by blast
  show ?case
  proof (cases "b \<le> k")
    case True
    then have m: "min b k = b" by simp
    have lt: "k - b < k" using True assms(1) by simp
    obtain s' where run: "runBatchLoop queueStep (int b) True c (l - int b) (t + int b) s1 =
          Some (Inr (t + int b + int (k - b)), s')"
        and eng': "engine s' = 0"
        and crank': "crankNumber s' = crankNumber s1 + int (k - b)"
        and com': "commits (events s') = commits (events s1) + (if c then (k - b) div b + 1 else 0)"
        and dur': "durable s' = (if c then Some 0 else durable s1)"
      using less.IH [OF lt, of s1 "l - int b" "t + int b"] eng m by auto
    have d: "k div b = Suc ((k - b) div b)" using True assms(1) by (simp add: le_div_geq)
    have unfold: "runBatchLoop queueStep (int b) True c l t s =
        runBatchLoop queueStep (int b) True c (l - int b) (t + int b) s1"
      using blk m by (subst runBatchLoop.simps) simp
    show ?thesis
      using run eng' crank' com' dur' True crank com dur unfolding unfold m d
      by (intro exI [of _ s']) auto
  next
    case False
    then have m: "min b k = k" by simp
    have unfold: "runBatchLoop queueStep (int b) True c l t s = Some (Inr (t + int k), s1)"
      using blk m False by (subst runBatchLoop.simps) simp
    show ?thesis
      using eng crank com dur False unfolding unfold m
      by (intro exI [of _ s1]) auto
  qed
qed


text \<open>A batch with a step limit below the work in the queue.\<close>

lemma queue_limited:
  assumes "0 < b"
  shows "engine s = k \<Longrightarrow> 0 < l \<Longrightarrow> l < int k \<Longrightarrow>
     \<exists>n s'. runBatchLoop queueStep (int b) False c l t s = Some (Inr (t + n), s') \<and>
       l \<le> n \<and> n \<le> l + int b - 1 \<and> engine s' = k - nat n \<and>
       crankNumber s' = crankNumber s + n \<and> (int b dvd n \<or> n = int k)"
proof (induction "nat l" arbitrary: l s t k rule: less_induct)
  case less
  obtain s1 where blk: "runBlock queueStep (int b) c s = (Inr (int (min b k)), s1)"
      and eng: "engine s1 = k - min b k"
      and crank: "crankNumber s1 = crankNumber s + int (min b k)"
    using queue_block [OF less.prems(1), of b c] by blast
  show ?case
  proof (cases "b \<le> k")
    case True
    then have m: "min b k = b" by simp
    show ?thesis
    proof (cases "0 < l - int b")
      case more: True
      have smaller: "nat (l - int b) < nat l" using more assms by simp
      have e1: "engine s1 = k - b" using eng m by simp
      have below: "l - int b < int (k - b)" using less.prems(3) True by simp
      obtain n s' where run: "runBatchLoop queueStep (int b) False c (l - int b) (t + int b) s1 =
            Some (Inr (t + int b + n), s')"
          and lo: "l - int b \<le> n" and hi: "n \<le> l - int b + int b - 1"
          and eng': "engine s' = (k - b) - nat n"
          and crank': "crankNumber s' = crankNumber s1 + n"
          and full: "int b dvd n \<or> n = int (k - b)"
        using less.hyps [OF smaller e1 more below, of "t + int b"] by blast
      have unfold: "runBatchLoop queueStep (int b) False c l t s =
          runBatchLoop queueStep (int b) False c (l - int b) (t + int b) s1"
        using blk m more by (subst runBatchLoop.simps) simp
      have npos: "0 \<le> n" using lo more by simp
      have engn: "engine s' = k - nat (int b + n)"
        using eng' npos by (simp add: nat_add_distrib)
      have fulln: "int b dvd int b + n \<or> int b + n = int k"
        using full True by auto
      show ?thesis
        using run lo hi engn crank' crank fulln unfolding unfold m
        by (intro exI [of _ "int b + n"] exI [of _ s']) (simp add: add.assoc)
    next
      case last: False
      have unfold: "runBatchLoop queueStep (int b) False c l t s = Some (Inr (t + int b), s1)"
        using blk m last by (subst runBatchLoop.simps) simp
      show ?thesis
        using eng crank last less.prems(2) unfolding unfold m
        by (intro exI [of _ "int b"] exI [of _ s1]) simp
    qed
  next
    case False
    then have m: "min b k = k" by simp
    have unfold: "runBatchLoop queueStep (int b) False c l t s = Some (Inr (t + int k), s1)"
      using blk m False by (subst runBatchLoop.simps) simp
    show ?thesis
      using eng crank False less.prems unfolding unfold m
      by (intro exI [of _ "int k"] exI [of _ s1]) simp
  qed
qed

lemma blocks_as_ceiling:
  assumes "0 < (b::nat)"
  shows "k div b + 1 = (k + b - 1) div b + (if b dvd k then 1 else 0)"
proof -
  have split: "k = k div b * b + k mod b" by simp
  have e: "k + b - 1 = (k mod b + (b - 1)) + k div b * b"
    using split assms by linarith
  have "(k + b - 1) div b = k div b + (k mod b + (b - 1)) div b"
    unfolding e using assms div_mult_self1 [of b "k mod b + (b - 1)" "k div b"] by simp
  moreover have "(k mod b + (b - 1)) div b = (if b dvd k then 0 else 1)"
  proof (cases "b dvd k")
    case True
    then have "k mod b = 0" by simp
    then show ?thesis using True assms by simp
  next
    case False
    then have r: "0 < k mod b" by (simp add: dvd_eq_mod_eq_0)
    have lt: "k mod b < b" using assms by simp
    have "k mod b + (b - 1) < b + b" using lt assms by linarith
    then have "k mod b + (b - 1) < b * Suc 1" by simp
    moreover have "b * 1 \<le> k mod b + (b - 1)" using r by simp
    ultimately have "(k mod b + (b - 1)) div b = 1" by (intro div_nat_eqI)
    then show ?thesis using False by simp
  qed
  ultimately show ?thesis by simp
qed

text \<open>
  Claim C1, as amended. For every block size above zero and an engine whose queue holds
  exactly \<open>k\<close> units, \<^verbatim>\<open>runBatch(0, true)\<close> returns, has run exactly \<open>k\<close> units, and has
  called \<^verbatim>\<open>store.commit()\<close> once per block: \<open>k div blockSize + 1\<close> times, which is
  \<open>ceil(k / blockSize)\<close> and one more when \<open>blockSize\<close> divides \<open>k\<close> (the batch only learns
  that the queue is empty from a block that comes back short, so a queue that ends on a
  block boundary costs one more, empty, block and its commit).
\<close>

theorem runBatch_drains_queue:
  assumes "0 < blockSize" "engine s = k"
  shows "\<exists>s'. runBatch queueStep blockSize 0 True s = Some (Inr (int k), s') \<and>
       engine s' = 0 \<and> crankNumber s' = crankNumber s + int k \<and> durable s' = Some 0 \<and>
       commits (events s') = commits (events s) + k div nat blockSize + 1 \<and>
       commits (events s') = commits (events s) + (k + nat blockSize - 1) div nat blockSize +
          (if nat blockSize dvd k then 1 else 0)"
proof -
  have b: "0 < nat blockSize" "int (nat blockSize) = blockSize" using assms(1) by simp_all
  obtain s' where run: "runBatchLoop queueStep blockSize True True 0 0 s = Some (Inr (int k), s')"
      and rest: "engine s' = 0" "crankNumber s' = crankNumber s + int k" "durable s' = Some 0"
      and com: "commits (events s') = commits (events s) + (k div nat blockSize + 1)"
    using queue_drain [OF b(1) assms(2), of True 0 0, unfolded b(2)] by auto
  have com2: "commits (events s') = commits (events s) + (k + nat blockSize - 1) div nat blockSize +
          (if nat blockSize dvd k then 1 else 0)"
    unfolding com blocks_as_ceiling [OF b(1), of k] by simp
  show ?thesis
    unfolding runBatch_def using run rest com com2 by (intro exI [of _ s']) simp
qed

theorem runBatch_drains_queue_witness:
  "\<exists>s'. runBatch queueStep 200 0 True (initRunner 450 :: (nat, unit) runner) = Some (Inr 450, s') \<and>
      commits (events s') = 3"
proof -
  have e: "engine (initRunner 450 :: (nat, unit) runner) = 450" by (simp add: initRunner_def)
  have z: "commits (events (initRunner 450 :: (nat, unit) runner)) = 0" by (simp add: initRunner_def)
  have d: "(450::nat) div nat 200 + 1 = 3" by simp
  from runBatch_drains_queue [of 200, OF _ e]
  obtain s' where "runBatch queueStep 200 0 True (initRunner 450 :: (nat, unit) runner) = Some (Inr (int 450), s')"
    "commits (events s') = commits (events (initRunner 450 :: (nat, unit) runner)) + 450 div nat 200 + 1"
    by auto
  then show ?thesis unfolding z using d by (intro exI [of _ s']) simp
qed

text \<open>
  The claim C1 as stated fails where the block size divides \<open>k\<close>: with a block size of 2
  and 4 units in the queue the batch runs 4 units and commits 3 times, not \<open>ceil(4 / 2) = 2\<close>
  times.
\<close>

theorem runBatch_commits_counterexample:
  "map_option fst (runBatch queueStep 2 0 True (initRunner 4 :: (nat, unit) runner)) = Some (Inr 4) \<and>
   map_option (commits \<circ> events \<circ> snd) (runBatch queueStep 2 0 True (initRunner 4 :: (nat, unit) runner))
     = Some 3 \<and>
   map_option (commits \<circ> events \<circ> snd) (runBatch queueStep 2 0 True (initRunner 4 :: (nat, unit) runner))
     \<noteq> Some ((4 + 2 - 1) div 2)"
proof -
  have e: "engine (initRunner 4 :: (nat, unit) runner) = 4" by (simp add: initRunner_def)
  obtain s' where "runBatchLoop queueStep (int 2) True True 0 0 (initRunner 4 :: (nat, unit) runner)
        = Some (Inr (0 + int 4), s')"
      "commits (events s') = commits (events (initRunner 4 :: (nat, unit) runner)) + (if True then 4 div 2 + 1 else 0)"
    using queue_drain [OF _ e, of 2 True 0 0] by auto
  then show ?thesis by (simp add: runBatch_def initRunner_def)
qed

text \<open>
  Claim C4. For every step limit above zero and below the number of units in the queue,
  \<^verbatim>\<open>runBatch(stepLimit, true)\<close> returns, having run at least \<open>stepLimit\<close> and at most
  \<open>stepLimit + blockSize - 1\<close> units; it stops at a block end (a whole number of blocks, or
  all \<open>k\<close> units).
\<close>

theorem runBatch_step_limit:
  assumes "0 < blockSize" "engine s = k" "0 < stepLimit" "stepLimit < int k"
  shows "\<exists>n s'. runBatch queueStep blockSize stepLimit True s = Some (Inr n, s') \<and>
       stepLimit \<le> n \<and> n \<le> stepLimit + blockSize - 1 \<and>
       engine s' = k - nat n \<and> crankNumber s' = crankNumber s + n \<and>
       (blockSize dvd n \<or> n = int k)"
proof -
  have b: "0 < nat blockSize" "int (nat blockSize) = blockSize" using assms(1) by simp_all
  have ne: "stepLimit \<noteq> 0" using assms(3) by simp
  show ?thesis
    unfolding runBatch_def
    using queue_limited [OF b(1) assms(2-4), of True 0, unfolded b(2)] ne by simp
qed

theorem runBatch_step_limit_witness:
  "\<exists>n s'. runBatch queueStep 200 250 True (initRunner 450 :: (nat, unit) runner) = Some (Inr n, s') \<and>
      250 \<le> n \<and> n \<le> 449"
proof -
  have e: "engine (initRunner 450 :: (nat, unit) runner) = 450" by (simp add: initRunner_def)
  from runBatch_step_limit [of 200 _ 450 250, OF _ e]
  obtain n s' where "runBatch queueStep 200 250 True (initRunner 450 :: (nat, unit) runner) = Some (Inr n, s')"
    "250 \<le> n" "n \<le> 250 + 200 - 1"
    by auto
  then show ?thesis by (intro exI [of _ n] exI [of _ s']) simp
qed

subsection \<open>Counting the steps of a block\<close>








subsection \<open>A step that throws\<close>

lemma callStep_threw:
  assumes "callStep step s = (Inl x, s')"
  shows "\<exists>ws. events s' = events s @ ws @ [StepThrew] \<and> warningsOnly ws"
    and "\<exists>e'. (Inl x, e') \<in> finishes (step (engine s))"
  using callStep_events [OF assms] callStep_frame(1) [OF assms] by auto

lemma callStep_returned:
  assumes "callStep step s = (Inr k, s')"
  shows "\<exists>ws. events s' = events s @ ws @ [Stepped k] \<and> warningsOnly ws"
  using callStep_events [OF assms] by auto

lemma runBlockLoop_throws:
  "runBlockLoop step n acc s = (r, s') \<Longrightarrow>
     \<exists>evs. commits evs = 0 \<and> StepThrew \<notin> set evs \<and>
       (case r of
          Inl x \<Rightarrow> events s' = events s @ evs @ [StepThrew] \<and>
                   (\<exists>e e'. (Inl x, e') \<in> finishes (step e))
        | Inr a \<Rightarrow> events s' = events s @ evs)"
proof (induction step n acc s rule: runBlockLoop.induct)
  case (1 step n acc s)
  from "1.prems" show ?case
  proof (cases rule: runBlockLoop_cases)
    case stop
    then show ?thesis by (intro exI [of _ "[]"]) simp
  next
    case (threw x)
    obtain ws where "events s' = events s @ ws @ [StepThrew]" "warningsOnly ws"
      using callStep_threw(1) [OF threw(2)] by blast
    then show ?thesis using threw callStep_threw(2) [OF threw(2)] log_of_warnings [of ws]
      by (intro exI [of _ ws]) auto
  next
    case (dry k)
    obtain ws where "events s' = events s @ ws @ [Stepped k]" "warningsOnly ws"
      using callStep_returned [OF dry(2)] by blast
    then show ?thesis using dry log_of_warnings [of ws]
      by (intro exI [of _ "ws @ [Stepped k]"]) auto
  next
    case (again k s1)
    let ?s2 = "s1\<lparr>crankNumber := crankNumber s1 + k\<rparr>"
    obtain ws where e1: "events s1 = events s @ ws @ [Stepped k]" and w1: "warningsOnly ws"
      using callStep_returned [OF again(2)] by blast
    have nk: "\<not> k < 1" using again(3) by simp
    obtain evs2 where c2: "commits evs2 = 0" and t2: "StepThrew \<notin> set evs2"
        and r2: "case r of
          Inl x \<Rightarrow> events s' = events ?s2 @ evs2 @ [StepThrew] \<and>
                   (\<exists>e e'. (Inl x, e') \<in> finishes (step e))
        | Inr a \<Rightarrow> events s' = events ?s2 @ evs2"
      using "1.IH" [OF again(1) again(2) [symmetric] refl nk again(4)] by blast
    show ?thesis
      using e1 c2 t2 r2 log_of_warnings [OF w1]
      by (intro exI [of _ "ws @ [Stepped k] @ evs2"]) (auto split: sum.splits)
  qed
qed

text \<open>
  Claim C8. If a step of the engine throws during a block, \<^verbatim>\<open>runBlock\<close> ends with that
  exception: the throwing call is the last thing the block did and the only throw (no
  retry), \<^verbatim>\<open>store.commit()\<close> is not called in the block, and the durable state is the one
  the block started with, that is, the one of the last commit before it. \<^verbatim>\<open>runBatch\<close>
  hands the same exception on without running another block.
\<close>

theorem runBlock_step_throws:
  assumes "runBlock step requestedSteps doCommit s = (r, s')"
  shows "\<exists>evs. events s' = events s @ evs \<and>
     (StepThrew \<in> set evs \<longrightarrow>
        (\<exists>x e e'. r = Inl x \<and> (Inl x, e') \<in> finishes (step e)) \<and>
        last evs = StepThrew \<and> StepThrew \<notin> set (butlast evs) \<and>
        commits evs = 0 \<and> durable s' = durable s \<and>
        (\<forall>runAll stepLimit totalSteps.
           runBatchLoop step requestedSteps runAll doCommit stepLimit totalSteps s = Some (r, s')))"
  using assms
proof (cases rule: runBlock_cases)
  case (threw x)
  obtain evs where evs: "commits evs = 0" "StepThrew \<notin> set evs"
      "events s' = events s @ evs @ [StepThrew]" "\<exists>e e'. (Inl x, e') \<in> finishes (step e)"
    using runBlockLoop_throws [OF threw(1)] by auto
  have dur: "durable s' = durable s" using runBlockLoop_frame [OF threw(1)] by simp
  have batch: "runBatchLoop step requestedSteps runAll doCommit stepLimit totalSteps s = Some (r, s')"
    for runAll stepLimit totalSteps
    using assms threw(2) by (subst runBatchLoop.simps) simp
  show ?thesis
    using evs dur batch threw(2)
    by (intro exI [of _ "evs @ [StepThrew]"]) simp
next
  case (ran a s1)
  obtain evs where evs: "StepThrew \<notin> set evs" "events s1 = events s @ evs"
    using runBlockLoop_throws [OF ran(1)] by auto
  show ?thesis
  proof (cases doCommit)
    case True
    then show ?thesis using evs ran
      by (intro exI [of _ "evs @ [Committed]"]) (simp add: commit_def)
  next
    case False
    then show ?thesis using evs ran by (intro exI [of _ evs]) simp
  qed
qed

text \<open>
  After a commit with 2 units queued, a block of \<open>panicStep\<close> runs them, the third step
  throws, and the state committed before the block is still the durable one.
\<close>

theorem runBlock_step_throws_witness:
  "runBlock panicStep 5 True (commit (initRunner 2 :: (nat, unit) runner)) =
     (Inl ''kernel panic'',
      \<lparr>engine = 0, durable = Some 2, crankNumber = 2, messageCount = 0,
        messageResponsePromises = Map.empty, promises = [],
        events = [Committed, Stepped 1, Stepped 1, StepThrew]\<rparr>) \<and>
   runBatch panicStep 5 0 True (commit (initRunner 2 :: (nat, unit) runner)) =
     Some (Inl ''kernel panic'',
      \<lparr>engine = 0, durable = Some 2, crankNumber = 2, messageCount = 0,
        messageResponsePromises = Map.empty, promises = [],
        events = [Committed, Stepped 1, Stepped 1, StepThrew]\<rparr>)"
proof -
  let ?s' = "\<lparr>engine = 0::nat, durable = Some 2, crankNumber = 2, messageCount = 0,
        messageResponsePromises = Map.empty, promises = [] :: unit option list,
        events = [Committed, Stepped 1, Stepped 1, StepThrew]\<rparr>"
  have run: "runBlock panicStep 5 True (commit (initRunner 2)) = (Inl ''kernel panic'', ?s')"
    by (simp add: runBlock_def runBlockLoop.simps callStep_def panicStep_def commit_def
        initRunner_def)
  obtain evs where evs: "events ?s' = events (commit (initRunner 2 :: (nat, unit) runner)) @ evs"
      and imp: "StepThrew \<in> set evs \<longrightarrow>
        (\<forall>runAll stepLimit totalSteps.
           runBatchLoop panicStep 5 runAll True stepLimit totalSteps (commit (initRunner 2)) =
             Some (Inl ''kernel panic'', ?s'))"
    using runBlock_step_throws [OF run] by blast
  have "evs = [Stepped 1, Stepped 1, StepThrew]"
    using evs by (simp add: commit_def initRunner_def)
  then have "runBatchLoop panicStep 5 True True 0 0 (commit (initRunner 2)) =
             Some (Inl ''kernel panic'', ?s')"
    using imp by simp
  then show ?thesis using run by (simp add: runBatch_def)
qed

subsection \<open>What blocks and batches leave of the bridge\<close>

lemma bridgeKept_refl: "bridgeKept s s"
  by (simp add: bridgeKept_def)

lemma bridgeKept_trans: "bridgeKept s s1 \<Longrightarrow> bridgeKept s1 s2 \<Longrightarrow> bridgeKept s s2"
proof -
  assume a: "bridgeKept s s1" and b: "bridgeKept s1 s2"
  obtain evs1 where e1: "events s1 = events s @ evs1" "issued evs1 = []"
      "set (warned evs1) \<inter> dom (messageResponsePromises s) = {}"
    using a unfolding bridgeKept_def by blast
  obtain evs2 where e2: "events s2 = events s1 @ evs2" "issued evs2 = []"
      "set (warned evs2) \<inter> dom (messageResponsePromises s1) = {}"
    using b unfolding bridgeKept_def by blast
  have m: "messageResponsePromises s1 = messageResponsePromises s"
    using a unfolding bridgeKept_def by simp
  have "events s2 = events s @ (evs1 @ evs2) \<and> issued (evs1 @ evs2) = [] \<and>
      set (warned (evs1 @ evs2)) \<inter> dom (messageResponsePromises s) = {}"
    using e1 e2 m by auto
  then have "\<exists>evs. events s2 = events s @ evs \<and> issued evs = [] \<and>
      set (warned evs) \<inter> dom (messageResponsePromises s) = {}"
    by blast
  then show ?thesis using a b unfolding bridgeKept_def by simp
qed

lemma runBlockLoop_bridge: "runBlockLoop step n acc s = (r, s') \<Longrightarrow> bridgeKept s s'"
  using runBlockLoop_frame [of step n acc s r s'] runBlockLoop_log [of step n acc s r s']
  unfolding bridgeKept_def by blast

lemma commit_bridge: "bridgeKept s (commit s)"
  unfolding bridgeKept_def by (simp add: commit_def)

lemma runBlock_bridge:
  assumes "runBlock step n c s = (r, s')"
  shows "bridgeKept s s'"
  using assms
proof (cases rule: runBlock_cases)
  case (threw x)
  then show ?thesis using runBlockLoop_bridge by blast
next
  case (ran a s1)
  have "bridgeKept s s1" using runBlockLoop_bridge [OF ran(1)] .
  moreover have "bridgeKept s1 s'" unfolding ran(3) by (simp add: commit_bridge bridgeKept_refl)
  ultimately show ?thesis by (rule bridgeKept_trans)
qed

lemma runBatchLoop_bridge:
  assumes "runBatchLoop step b runAll c l t s = Some y"
  shows "bridgeKept s (snd y)"
  apply (rule runBatchLoop.raw_induct [where P = "\<lambda>step b runAll c l t s y. bridgeKept s (snd y)", OF _ assms])
  subgoal premises prems for loop step b runAll c l t s y
  proof -
    note IH = prems(1)
    note body = prems(2)
    obtain r1 s1 where blk: "runBlock step b c s = (r1, s1)" by (cases "runBlock step b c s")
    note b1 = runBlock_bridge [OF blk]
    show ?thesis
    proof (cases r1)
      case (Inl x)
      then have "y = (Inl x, s1)" using body blk by simp
      then show ?thesis using b1 by simp
    next
      case (Inr k)
      show ?thesis
      proof (cases "(runAll \<or> 0 < l - k) \<and> b \<le> k")
        case False
        then have "y = (Inr (t + k), s1)" using body blk Inr by auto
        then show ?thesis using b1 by simp
      next
        case True
        then have "loop step b runAll c (l - k) (t + k) s1 = Some y"
          using body blk Inr by auto
        then have "bridgeKept s1 (snd y)" by (rule IH)
        with b1 show ?thesis by (rule bridgeKept_trans)
      qed
    qed
  qed
  done

lemma callDeliver_bridge:
  assumes "callDeliver deliver i args s = (r, s')"
  shows "messageCount s' = messageCount s \<and>
     messageResponsePromises s' = messageResponsePromises s \<and>
     length (promises s') = length (promises s) \<and>
     (\<exists>ws. events s' = events s @ Delivered i # ws \<and> issued ws = [] \<and>
        set (warned ws) \<inter> dom (messageResponsePromises s) = {})"
proof -
  let ?s0 = "s\<lparr>events := events s @ [Delivered i]\<rparr>"
  have p: "perform (deliver i args (engine s)) ?s0 = (r, s')"
    using assms by (simp add: callDeliver_def)
  note f = perform_frame [OF p]
  obtain ws where ws: "events s' = events ?s0 @ ws" "warningsOnly ws"
      "set (warned ws) \<inter> dom (messageResponsePromises ?s0) = {}"
    using f by blast
  have "events s' = events s @ Delivered i # ws \<and> issued ws = [] \<and>
        set (warned ws) \<inter> dom (messageResponsePromises s) = {}"
    using ws log_of_warnings [OF ws(2)] by simp
  then have "\<exists>ws. events s' = events s @ Delivered i # ws \<and> issued ws = [] \<and>
        set (warned ws) \<inter> dom (messageResponsePromises s) = {}"
    by blast
  then show ?thesis using f by simp
qed

text \<open>One call of \<open>handleMessage\<close>, whatever its outcome.\<close>

lemma handleMessage_bridge:
  assumes "handleMessage step deliver b bm args s = Some (r, s')"
  shows "messageCount s' = messageCount s + 1"
    and "messageResponsePromises s' =
           (messageResponsePromises s)(messageCount s \<mapsto> length (promises s))"
    and "length (promises s') = Suc (length (promises s))"
    and "\<exists>evs. events s' = events s @ Delivered (messageCount s) # evs \<and> issued evs = [] \<and>
           set (warned evs) \<inter> insert (messageCount s) (dom (messageResponsePromises s)) = {}"
    and "\<forall>p. r = Inr p \<longrightarrow> p = length (promises s)"
proof -
  let ?i = "messageCount s"
  let ?s3 = "s\<lparr>messageCount := messageCount s + 1, promises := promises s @ [None],
     messageResponsePromises := (messageResponsePromises s)(?i \<mapsto> length (promises s))\<rparr>"
  obtain r4 s4 where del: "callDeliver deliver ?i args ?s3 = (r4, s4)"
    by (cases "callDeliver deliver ?i args ?s3")
  note d = callDeliver_bridge [OF del]
  obtain ws where ws: "events s4 = events s @ Delivered ?i # ws" "issued ws = []"
      "set (warned ws) \<inter> insert ?i (dom (messageResponsePromises s)) = {}"
    using d by auto
  have all: "messageCount s' = messageCount s + 1 \<and>
     messageResponsePromises s' = (messageResponsePromises s)(?i \<mapsto> length (promises s)) \<and>
     length (promises s') = Suc (length (promises s)) \<and>
     (\<exists>evs. events s' = events s @ Delivered ?i # evs \<and> issued evs = [] \<and>
           set (warned evs) \<inter> insert ?i (dom (messageResponsePromises s)) = {}) \<and>
     (\<forall>p. r = Inr p \<longrightarrow> p = length (promises s))"
  proof (cases r4)
    case (Inl x)
    then have "s' = s4" "r = Inl x"
      using assms del by (auto simp: handleMessage_def defer'_def Let_def)
    then show ?thesis using d ws by auto
  next
    case (Inr u)
    then obtain r5 where run: "runBatch step b 0 bm s4 = Some (r5, s')"
        and r: "r = (case r5 of Inl x \<Rightarrow> Inl x | Inr _ \<Rightarrow> Inr (length (promises s)))"
      using assms del
      by (auto simp: handleMessage_def defer'_def Let_def split: option.splits sum.splits)
    note b = runBatchLoop_bridge [OF run [unfolded runBatch_def], simplified, unfolded bridgeKept_def]
    obtain evs where evs: "events s' = events s4 @ evs" "issued evs = []"
        "set (warned evs) \<inter> dom (messageResponsePromises s4) = {}"
      using b by blast
    have m4: "messageResponsePromises s4 = (messageResponsePromises s)(?i \<mapsto> length (promises s))"
      using d by simp
    have "events s' = events s @ Delivered ?i # (ws @ evs) \<and>
        issued (ws @ evs) = [] \<and>
        set (warned (ws @ evs)) \<inter> insert ?i (dom (messageResponsePromises s)) = {}"
      using ws evs unfolding m4 by auto
    then have "\<exists>evs. events s' = events s @ Delivered ?i # evs \<and> issued evs = [] \<and>
           set (warned evs) \<inter> insert ?i (dom (messageResponsePromises s)) = {}"
      by blast
    then show ?thesis using b d r by (auto split: sum.splits)
  qed
  show "messageCount s' = messageCount s + 1"
    and "messageResponsePromises s' =
           (messageResponsePromises s)(messageCount s \<mapsto> length (promises s))"
    and "length (promises s') = Suc (length (promises s))"
    and "\<exists>evs. events s' = events s @ Delivered (messageCount s) # evs \<and> issued evs = [] \<and>
           set (warned evs) \<inter> insert (messageCount s) (dom (messageResponsePromises s)) = {}"
    and "\<forall>p. r = Inr p \<longrightarrow> p = length (promises s)"
    using all by blast+
qed


subsection \<open>The states of one runner\<close>

lemma noWarnAfterDeliver_undelivered:
  "issued evs = [] \<Longrightarrow> set (warned evs) \<inter> set ds = {} \<Longrightarrow> noWarnAfterDeliver ds evs"
  by (induction ds evs rule: noWarnAfterDeliver.induct) auto

lemma ids_upto_Suc:
  assumes "0 \<le> (m::int)"
  shows "map int [0..<nat (m + 1)] = map int [0..<nat m] @ [m]"
    and "set (map int [0..<nat m]) = {0..<m}"
    and "{0..<m + 1} = insert m {0..<m}"
proof -
  have n: "nat (m + 1) = Suc (nat m)" using assms by simp
  show "map int [0..<nat (m + 1)] = map int [0..<nat m] @ [m]"
    unfolding n using assms by simp
  show "set (map int [0..<nat m]) = {0..<m}"
  proof (intro set_eqI iffI)
    fix i assume "i \<in> set (map int [0..<nat m])"
    then show "i \<in> {0..<m}" by auto
  next
    fix i assume "i \<in> {0..<m}"
    then have "i = int (nat i)" "nat i < nat m" by auto
    then show "i \<in> set (map int [0..<nat m])"
      by (metis atLeastLessThan_iff atLeast_upt image_eqI le0 set_map set_upt)
  qed
  show "{0..<m + 1} = insert m {0..<m}" using assms by auto
qed

lemma reachable_inv:
  assumes "reachable step deliver b bm e s"
  shows "0 \<le> messageCount s \<and>
     issued (events s) = map int [0..<nat (messageCount s)] \<and>
     dom (messageResponsePromises s) = {0..<messageCount s} \<and>
     noWarnAfterDeliver [] (events s) \<and>
     (\<forall>i d. messageResponsePromises s i = Some d \<longrightarrow> d < length (promises s))"
  using assms
proof (induction rule: reachable.induct)
  case (created s)
  then obtain n where "runBatchLoop step b True bm 0 0 (initRunner e) = Some (Inr n, s)"
    by (auto simp: createSwingsetRunner_def runBatch_def split: option.splits sum.splits)
  from runBatchLoop_bridge [OF this]
  obtain evs where "messageCount s = 0" "messageResponsePromises s = Map.empty"
      "events s = evs" "issued evs = []"
    unfolding bridgeKept_def by (auto simp: initRunner_def)
  then show ?case by (simp add: noWarnAfterDeliver_undelivered)
next
  case (handled s args r s')
  let ?m = "messageCount s"
  note h = handleMessage_bridge [OF handled.hyps(2)]
  have pos: "0 \<le> ?m" and iss: "issued (events s) = map int [0..<nat ?m]"
      and dm: "dom (messageResponsePromises s) = {0..<?m}"
      and nw: "noWarnAfterDeliver [] (events s)"
      and pr: "\<forall>i d. messageResponsePromises s i = Some d \<longrightarrow> d < length (promises s)"
    using handled.IH by simp_all
  obtain evs where evs: "events s' = events s @ Delivered ?m # evs" "issued evs = []"
      "set (warned evs) \<inter> insert ?m (dom (messageResponsePromises s)) = {}"
    using h(4) by blast
  have "0 \<le> messageCount s'" using h(1) pos by simp
  moreover have "issued (events s') = map int [0..<nat (messageCount s')]"
    unfolding h(1) ids_upto_Suc(1) [OF pos] using evs iss by simp
  moreover have "dom (messageResponsePromises s') = {0..<messageCount s'}"
    unfolding h(1) h(2) ids_upto_Suc(3) [OF pos] using dm by simp
  moreover have "noWarnAfterDeliver [] (events s')"
  proof -
    have "set (?m # rev (issued (events s))) = insert ?m (dom (messageResponsePromises s))"
      unfolding iss dm using ids_upto_Suc(2) [OF pos] by simp
    then have "noWarnAfterDeliver (?m # rev (issued (events s))) evs"
      using evs(2,3) by (intro noWarnAfterDeliver_undelivered) simp_all
    then show ?thesis unfolding evs(1) using nw by (simp add: noWarnAfterDeliver_append)
  qed
  moreover have "\<forall>i d. messageResponsePromises s' i = Some d \<longrightarrow> d < length (promises s')"
    unfolding h(2) h(3) using pr by (auto simp: less_Suc_eq)
  ultimately show ?case by blast
qed

text \<open>
  Claim C5. In every state of a runner, the ids that \<^verbatim>\<open>handleMessage\<close> has handed to
  \<^verbatim>\<open>deliverInbound\<close> so far are \<open>0, 1, 2, \<dots>\<close> in the order of the calls: strictly increasing
  and without repetition, whatever the engine did in between and whether or not the
  promises of earlier ids are resolved. The next call issues \<open>messageCount\<close>, which is above
  every id issued before.
\<close>

theorem correlation_ids_increase:
  assumes "reachable step deliver blockSize blockMode e s"
  shows "issued (events s) = map int [0..<nat (messageCount s)] \<and>
     sorted_wrt (<) (issued (events s)) \<and> distinct (issued (events s)) \<and>
     (\<forall>args r s'. handleMessage step deliver blockSize blockMode args s = Some (r, s') \<longrightarrow>
        issued (events s') = issued (events s) @ [messageCount s] \<and>
        (\<forall>i\<in>set (issued (events s)). i < messageCount s))"
proof -
  note inv = reachable_inv [OF assms]
  have iss: "issued (events s) = map int [0..<nat (messageCount s)]" using inv by simp
  have st: "sorted_wrt (<) (map int [0..<nat (messageCount s)])"
    by (simp add: sorted_wrt_map sorted_wrt_iff_nth_less)
  have di: "distinct (map int [0..<nat (messageCount s)])"
    by (simp add: distinct_map)
  have next_id: "issued (events s') = issued (events s) @ [messageCount s] \<and>
        (\<forall>i\<in>set (issued (events s)). i < messageCount s)"
    if hm: "handleMessage step deliver blockSize blockMode args s = Some (r, s')" for args r s'
  proof -
    obtain evs where "events s' = events s @ Delivered (messageCount s) # evs" "issued evs = []"
      using handleMessage_bridge(4) [OF hm] by blast
    then have "issued (events s') = issued (events s) @ [messageCount s]" by simp
    moreover have "\<forall>i\<in>set (issued (events s)). i < messageCount s"
      using iss by auto
    ultimately show ?thesis by simp
  qed
  show ?thesis using iss st di next_id by simp
qed

text \<open>
  Claim C9. In every state of a runner, no warning about a missing entry was ever logged
  for an id after that id was handed to \<^verbatim>\<open>deliverInbound\<close> (so the entry was there before
  the delivery, and during it), every id issued so far has its entry in the mapping, and
  the outbound callback, called now with such an id, logs nothing.
\<close>

theorem issued_ids_never_warn:
  assumes "reachable step deliver blockSize blockMode e s"
  shows "noWarnAfterDeliver [] (events s) \<and>
     (\<forall>i\<in>set (issued (events s)). messageResponsePromises s i \<noteq> None \<and>
        (\<forall>v. \<exists>s'. doOutboundBridge (Index i) v s = Inr s' \<and> events s' = events s))"
proof -
  note inv = reachable_inv [OF assms]
  have pos: "0 \<le> messageCount s" using inv by simp
  have "set (issued (events s)) = dom (messageResponsePromises s)"
    using inv ids_upto_Suc(2) [OF pos] by simp
  then have "\<forall>i\<in>set (issued (events s)). messageResponsePromises s i \<noteq> None \<and>
        (\<forall>v. \<exists>s'. doOutboundBridge (Index i) v s = Inr s' \<and> events s' = events s)"
    by (auto simp: doOutboundBridge_def)
  then show ?thesis using inv by simp
qed

subsection \<open>Two runs on the queue engine\<close>

text \<open>With \<open>echoDeliver\<close> each message is answered at once.\<close>

lemma echo_created:
  "createSwingsetRunner queueStep 200 False 0 =
     Some (Inr \<lparr>engine = 0, durable = None, crankNumber = 0, messageCount = 0,
        messageResponsePromises = Map.empty, promises = [] :: string option list,
        events = [Stepped 0]\<rparr>)"
  by (simp add: createSwingsetRunner_def runBatch_def runBatchLoop.simps runBlock_def
      runBlockLoop.simps callStep_queue initRunner_def)

lemma echo_first:
  "handleMessage queueStep echoDeliver 200 False ''one''
     \<lparr>engine = 0, durable = None, crankNumber = 0, messageCount = 0,
        messageResponsePromises = Map.empty, promises = [] :: string option list,
        events = [Stepped 0]\<rparr> =
   Some (Inr 0, \<lparr>engine = 0, durable = None, crankNumber = 1, messageCount = 1,
        messageResponsePromises = [0 \<mapsto> 0], promises = [Some ''one''],
        events = [Stepped 0, Delivered 0, Stepped 1, Stepped 0]\<rparr>)"
  by (simp add: handleMessage_def defer'_def callDeliver_def echoDeliver_def
      doOutboundBridge_def resolve_def
      runBatch_def runBatchLoop.simps runBlock_def runBlockLoop.simps callStep_queue)

lemma echo_second:
  "handleMessage queueStep echoDeliver 200 False ''two''
     \<lparr>engine = 0, durable = None, crankNumber = 1, messageCount = 1,
        messageResponsePromises = [0 \<mapsto> 0], promises = [Some ''one''],
        events = [Stepped 0, Delivered 0, Stepped 1, Stepped 0]\<rparr> =
   Some (Inr 1, \<lparr>engine = 0, durable = None, crankNumber = 2, messageCount = 2,
        messageResponsePromises = [0 \<mapsto> 0, 1 \<mapsto> 1], promises = [Some ''one'', Some ''two''],
        events = [Stepped 0, Delivered 0, Stepped 1, Stepped 0, Delivered 1, Stepped 1, Stepped 0]\<rparr>)"
  by (simp add: handleMessage_def defer'_def callDeliver_def echoDeliver_def
      doOutboundBridge_def resolve_def
      runBatch_def runBatchLoop.simps runBlock_def runBlockLoop.simps callStep_queue)

lemma echo_reachable_first:
  "reachable queueStep echoDeliver 200 False 0
     \<lparr>engine = 0, durable = None, crankNumber = 1, messageCount = 1,
        messageResponsePromises = [0 \<mapsto> 0], promises = [Some ''one''],
        events = [Stepped 0, Delivered 0, Stepped 1, Stepped 0]\<rparr>"
  by (rule reachable.handled [OF reachable.created [OF echo_created] echo_first])

lemma echo_reachable_second:
  "reachable queueStep echoDeliver 200 False 0
     \<lparr>engine = 0, durable = None, crankNumber = 2, messageCount = 2,
        messageResponsePromises = [0 \<mapsto> 0, 1 \<mapsto> 1], promises = [Some ''one'', Some ''two''],
        events = [Stepped 0, Delivered 0, Stepped 1, Stepped 0, Delivered 1, Stepped 1, Stepped 0]\<rparr>"
  by (rule reachable.handled [OF echo_reachable_first echo_second])

text \<open>With \<open>queueDeliver\<close> the message is run but not answered: its promise stays pending.\<close>

lemma quiet_first:
  "handleMessage queueStep queueDeliver 200 False ''ping''
     \<lparr>engine = 0, durable = None, crankNumber = 0, messageCount = 0,
        messageResponsePromises = Map.empty, promises = [] :: string option list,
        events = [Stepped 0]\<rparr> =
   Some (Inr 0, \<lparr>engine = 0, durable = None, crankNumber = 1, messageCount = 1,
        messageResponsePromises = [0 \<mapsto> 0], promises = [None],
        events = [Stepped 0, Delivered 0, Stepped 1, Stepped 0]\<rparr>)"
  by (simp add: handleMessage_def defer'_def callDeliver_def queueDeliver_def
      runBatch_def runBatchLoop.simps runBlock_def runBlockLoop.simps callStep_queue)

lemma quiet_reachable_first:
  "reachable queueStep (queueDeliver :: (nat, unit, string, string) deliverFn) 200 False 0
     \<lparr>engine = 0, durable = None, crankNumber = 1, messageCount = 1,
        messageResponsePromises = [0 \<mapsto> 0], promises = [None],
        events = [Stepped 0, Delivered 0, Stepped 1, Stepped 0]\<rparr>"
  by (rule reachable.handled [OF reachable.created [OF echo_created] quiet_first])

text \<open>Both properties on the states of the echo run.\<close>

theorem correlation_ids_increase_witness:
  "reachable queueStep echoDeliver 200 False 0
     \<lparr>engine = 0, durable = None, crankNumber = 2, messageCount = 2,
        messageResponsePromises = [0 \<mapsto> 0, 1 \<mapsto> 1], promises = [Some ''one'', Some ''two''],
        events = [Stepped 0, Delivered 0, Stepped 1, Stepped 0, Delivered 1, Stepped 1, Stepped 0]\<rparr> \<and>
   issued [Stepped 0, Delivered 0, Stepped 1, Stepped 0, Delivered 1, Stepped 1, Stepped 0] = [0, 1] \<and>
   sorted_wrt (<) (issued [Stepped 0, Delivered 0, Stepped 1, Stepped 0, Delivered 1, Stepped 1, Stepped 0]) \<and>
   distinct (issued [Stepped 0, Delivered 0, Stepped 1, Stepped 0, Delivered 1, Stepped 1, Stepped 0])"
proof -
  note ids = correlation_ids_increase [OF echo_reachable_second, unfolded runner.select_convs]
  have "issued [Stepped 0, Delivered 0, Stepped 1, Stepped 0, Delivered 1, Stepped 1, Stepped 0] = [0, 1]"
    by simp
  moreover have
    "sorted_wrt (<) (issued [Stepped 0, Delivered 0, Stepped 1, Stepped 0, Delivered 1, Stepped 1, Stepped 0])"
    "distinct (issued [Stepped 0, Delivered 0, Stepped 1, Stepped 0, Delivered 1, Stepped 1, Stepped 0])"
    using ids by blast+
  ultimately show ?thesis using echo_reachable_second by blast
qed

theorem issued_ids_never_warn_witness:
  "reachable queueStep echoDeliver 200 False 0
     \<lparr>engine = 0, durable = None, crankNumber = 1, messageCount = 1,
        messageResponsePromises = [0 \<mapsto> 0], promises = [Some ''one''],
        events = [Stepped 0, Delivered 0, Stepped 1, Stepped 0]\<rparr> \<and>
   noWarnAfterDeliver [] [Stepped 0, Delivered 0, Stepped 1, Stepped 0] \<and>
   doOutboundBridge (Index 0) ''late''
     \<lparr>engine = 0::nat, durable = None, crankNumber = 1, messageCount = 1,
        messageResponsePromises = [0 \<mapsto> 0], promises = [Some ''one''],
        events = [Stepped 0, Delivered 0, Stepped 1, Stepped 0]\<rparr> =
     Inr \<lparr>engine = 0::nat, durable = None, crankNumber = 1, messageCount = 1,
        messageResponsePromises = [0 \<mapsto> 0], promises = [Some ''one''],
        events = [Stepped 0, Delivered 0, Stepped 1, Stepped 0]\<rparr>"
proof -
  let ?s = "\<lparr>engine = 0::nat, durable = None, crankNumber = 1, messageCount = 1,
        messageResponsePromises = [0 \<mapsto> 0], promises = [Some ''one''],
        events = [Stepped 0, Delivered 0, Stepped 1, Stepped 0]\<rparr>"
  note t = issued_ids_never_warn [OF echo_reachable_first, unfolded runner.select_convs]
  have "noWarnAfterDeliver [] [Stepped 0, Delivered 0, Stepped 1, Stepped 0]"
    using t by blast
  moreover have "doOutboundBridge (Index 0) ''late'' ?s = Inr ?s"
    by (simp add: doOutboundBridge_def resolve_def)
  ultimately show ?thesis using echo_reachable_first by blast
qed

subsection \<open>The outbound callback\<close>

text \<open>
  Claim C2, as amended. The outbound callback resolves the promise of an id and leaves the
  mapping as it was: the id is still present, with the same deferred. No later call of
  \<^verbatim>\<open>handleMessage\<close> removes or replaces the entry either.
\<close>

theorem pending_entry_stays:
  assumes "messageResponsePromises s i = Some d"
  shows "(\<exists>s1. doOutboundBridge (Index i) val s = Inr s1 \<and>
        messageResponsePromises s1 i = Some d \<and>
        messageResponsePromises s1 = messageResponsePromises s \<and>
        (d < length (promises s) \<and> promises s ! d = None \<longrightarrow> promises s1 ! d = Some val)) \<and>
     (reachable step deliver blockSize blockMode e s \<longrightarrow>
        (\<forall>args r s'. handleMessage step deliver blockSize blockMode args s = Some (r, s') \<longrightarrow>
           messageResponsePromises s' i = Some d))"
proof -
  let ?s1 = "s\<lparr>promises := resolve d val (promises s)\<rparr>"
  have call: "doOutboundBridge (Index i) val s = Inr ?s1"
    using assms by (simp add: doOutboundBridge_def)
  have res: "d < length (promises s) \<and> promises s ! d = None \<longrightarrow>
        promises ?s1 ! d = Some val"
    by (simp add: resolve_def)
  have now: "\<exists>s1. doOutboundBridge (Index i) val s = Inr s1 \<and>
        messageResponsePromises s1 i = Some d \<and>
        messageResponsePromises s1 = messageResponsePromises s \<and>
        (d < length (promises s) \<and> promises s ! d = None \<longrightarrow> promises s1 ! d = Some val)"
    using call res assms by (intro exI [of _ ?s1]) simp
  have later: "messageResponsePromises s' i = Some d"
    if re: "reachable step deliver blockSize blockMode e s"
      and hm: "handleMessage step deliver blockSize blockMode args s = Some (r, s')"
    for args r s'
  proof -
    have "i \<in> {0..<messageCount s}" using reachable_inv [OF re] assms by blast
    then have "i \<noteq> messageCount s" by simp
    then show ?thesis using handleMessage_bridge(2) [OF hm] assms by simp
  qed
  show ?thesis using now later by blast
qed

text \<open>
  The entry of message 0 after its promise was resolved, and after the next message.
\<close>

theorem pending_entry_stays_witness:
  "doOutboundBridge (Index 0) ''pong''
        \<lparr>engine = 0::nat, durable = None, crankNumber = 1, messageCount = 1,
          messageResponsePromises = [0 \<mapsto> 0], promises = [None],
          events = [Stepped 0, Delivered 0, Stepped 1, Stepped 0]\<rparr> =
     Inr \<lparr>engine = 0::nat, durable = None, crankNumber = 1, messageCount = 1,
          messageResponsePromises = [0 \<mapsto> 0], promises = [Some ''pong''],
          events = [Stepped 0, Delivered 0, Stepped 1, Stepped 0]\<rparr> \<and>
   map_option (\<lambda>y. messageResponsePromises (snd y) 0)
     (handleMessage queueStep queueDeliver 200 False ''next''
        \<lparr>engine = 0::nat, durable = None, crankNumber = 1, messageCount = 1,
          messageResponsePromises = [0 \<mapsto> 0], promises = [None :: string option],
          events = [Stepped 0, Delivered 0, Stepped 1, Stepped 0]\<rparr>) = Some (Some 0)"
proof -
  let ?s = "\<lparr>engine = 0::nat, durable = None, crankNumber = 1, messageCount = 1,
          messageResponsePromises = [0 \<mapsto> 0], promises = [None :: string option],
          events = [Stepped 0, Delivered 0, Stepped 1, Stepped 0]\<rparr>"
  have m: "messageResponsePromises ?s 0 = Some 0" by simp
  obtain r s' where hm: "handleMessage queueStep queueDeliver 200 False ''next'' ?s = Some (r, s')"
    by (simp add: handleMessage_def defer'_def callDeliver_def queueDeliver_def
      runBatch_def runBatchLoop.simps runBlock_def runBlockLoop.simps callStep_queue)
  note t = pending_entry_stays [OF m, of "''pong''" queueStep queueDeliver 200 False 0]
  have "messageResponsePromises s' 0 = Some 0"
    using t quiet_reachable_first hm by blast
  moreover have "doOutboundBridge (Index 0) ''pong'' ?s = Inr (?s\<lparr>promises := [Some ''pong'']\<rparr>)"
    by (simp add: doOutboundBridge_def resolve_def)
  ultimately show ?thesis using hm by simp
qed

text \<open>
  The claim C2 as stated fails: after \<^verbatim>\<open>handleMessage\<close> has issued id 0 and the outbound
  callback has resolved its promise, id 0 is still in the mapping.
\<close>

theorem pending_entry_removed_counterexample:
  "handleMessage queueStep queueDeliver 200 False ''ping''
     \<lparr>engine = 0, durable = None, crankNumber = 0, messageCount = 0,
        messageResponsePromises = Map.empty, promises = [] :: string option list,
        events = [Stepped 0]\<rparr> =
   Some (Inr 0, \<lparr>engine = 0, durable = None, crankNumber = 1, messageCount = 1,
        messageResponsePromises = [0 \<mapsto> 0], promises = [None],
        events = [Stepped 0, Delivered 0, Stepped 1, Stepped 0]\<rparr>) \<and>
   doOutboundBridge (Index 0) ''pong''
        \<lparr>engine = 0::nat, durable = None, crankNumber = 1, messageCount = 1,
          messageResponsePromises = [0 \<mapsto> 0], promises = [None],
          events = [Stepped 0, Delivered 0, Stepped 1, Stepped 0]\<rparr> =
     Inr \<lparr>engine = 0::nat, durable = None, crankNumber = 1, messageCount = 1,
          messageResponsePromises = [0 \<mapsto> 0], promises = [Some ''pong''],
          events = [Stepped 0, Delivered 0, Stepped 1, Stepped 0]\<rparr> \<and>
   0 \<in> dom (messageResponsePromises
        \<lparr>engine = 0::nat, durable = None, crankNumber = 1, messageCount = 1,
          messageResponsePromises = [0 \<mapsto> 0], promises = [Some ''pong''],
          events = [Stepped 0, Delivered 0, Stepped 1, Stepped 0]\<rparr>)"
  using quiet_first by (simp add: doOutboundBridge_def resolve_def)

text \<open>
  Claim C3, as amended. When the outbound callback is called a second time with an id whose
  promise it has resolved, the call finds the entry again and calls \<^verbatim>\<open>resolve\<close> again, which
  does nothing on a settled promise: the state is the same as after the first call, no
  warning is logged, and the promise that the caller of \<^verbatim>\<open>handleMessage\<close> holds keeps the
  value of the first resolution.
\<close>

theorem outbound_second_resolution:
  assumes "messageResponsePromises s i = Some d" "d < length (promises s)"
    and "promises s ! d = None"
  shows "\<exists>s1. doOutboundBridge (Index i) v1 s = Inr s1 \<and>
     promises s1 ! d = Some v1 \<and>
     doOutboundBridge (Index i) v2 s1 = Inr s1 \<and>
     events s1 = events s"
proof -
  let ?s1 = "s\<lparr>promises := (promises s)[d := Some v1]\<rparr>"
  have first: "doOutboundBridge (Index i) v1 s = Inr ?s1"
    using assms by (simp add: doOutboundBridge_def resolve_def)
  have second: "doOutboundBridge (Index i) v2 ?s1 = Inr ?s1"
    using assms by (simp add: doOutboundBridge_def resolve_def)
  show ?thesis
    using first second assms(2) by (intro exI [of _ ?s1]) simp
qed

theorem outbound_second_resolution_witness:
  "doOutboundBridge (Index 0) ''late''
      \<lparr>engine = 0::nat, durable = None, crankNumber = 1, messageCount = 1,
          messageResponsePromises = [0 \<mapsto> 0], promises = [Some ''pong''],
          events = [Stepped 0, Delivered 0, Stepped 1, Stepped 0]\<rparr> =
     Inr \<lparr>engine = 0::nat, durable = None, crankNumber = 1, messageCount = 1,
          messageResponsePromises = [0 \<mapsto> 0], promises = [Some ''pong''],
          events = [Stepped 0, Delivered 0, Stepped 1, Stepped 0]\<rparr>"
proof -
  let ?s = "\<lparr>engine = 0::nat, durable = None, crankNumber = 1, messageCount = 1,
          messageResponsePromises = [0 \<mapsto> 0], promises = [None :: string option],
          events = [Stepped 0, Delivered 0, Stepped 1, Stepped 0]\<rparr>"
  have m: "messageResponsePromises ?s 0 = Some 0" and l: "0 < length (promises ?s)"
    and p: "promises ?s ! 0 = None"
    by simp_all
  obtain s1 where first: "doOutboundBridge (Index 0) ''pong'' ?s = Inr s1"
      and second: "doOutboundBridge (Index 0) ''late'' s1 = Inr s1"
    using outbound_second_resolution [OF m l p, of "''pong''" "''late''"] by blast
  have "s1 = ?s\<lparr>promises := [Some ''pong'']\<rparr>"
    using first by (simp add: doOutboundBridge_def resolve_def)
  then show ?thesis using second by simp
qed

text \<open>
  The claim C3 as stated fails: the second call for id 0 logs no warning.
\<close>

theorem second_resolution_warns_counterexample:
  "handleMessage queueStep queueDeliver 200 False ''ping''
     \<lparr>engine = 0, durable = None, crankNumber = 0, messageCount = 0,
        messageResponsePromises = Map.empty, promises = [] :: string option list,
        events = [Stepped 0]\<rparr> =
   Some (Inr 0, \<lparr>engine = 0, durable = None, crankNumber = 1, messageCount = 1,
        messageResponsePromises = [0 \<mapsto> 0], promises = [None],
        events = [Stepped 0, Delivered 0, Stepped 1, Stepped 0]\<rparr>) \<and>
   doOutboundBridge (Index 0) ''pong''
        \<lparr>engine = 0::nat, durable = None, crankNumber = 1, messageCount = 1,
          messageResponsePromises = [0 \<mapsto> 0], promises = [None],
          events = [Stepped 0, Delivered 0, Stepped 1, Stepped 0]\<rparr> =
     Inr \<lparr>engine = 0::nat, durable = None, crankNumber = 1, messageCount = 1,
          messageResponsePromises = [0 \<mapsto> 0], promises = [Some ''pong''],
          events = [Stepped 0, Delivered 0, Stepped 1, Stepped 0]\<rparr> \<and>
   doOutboundBridge (Index 0) ''late''
        \<lparr>engine = 0::nat, durable = None, crankNumber = 1, messageCount = 1,
          messageResponsePromises = [0 \<mapsto> 0], promises = [Some ''pong''],
          events = [Stepped 0, Delivered 0, Stepped 1, Stepped 0]\<rparr> =
     Inr \<lparr>engine = 0::nat, durable = None, crankNumber = 1, messageCount = 1,
          messageResponsePromises = [0 \<mapsto> 0], promises = [Some ''pong''],
          events = [Stepped 0, Delivered 0, Stepped 1, Stepped 0]\<rparr> \<and>
   Warned (Index 0) \<notin> set [Stepped 0, Delivered 0, Stepped 1, Stepped 0]"
  using quiet_first by (simp add: doOutboundBridge_def resolve_def)

text \<open>
  An id with no entry that is not a name inherited from \<^verbatim>\<open>Object.prototype\<close>: the callback
  logs the warning, changes nothing else, and returns.
\<close>

lemma doOutboundBridge_missing:
  "messageResponsePromises s i = None \<Longrightarrow>
     doOutboundBridge (Index i) val s = Inr (s\<lparr>events := events s @ [Warned (Index i)]\<rparr>)"
  "n \<notin> set objectPrototype \<Longrightarrow>
     doOutboundBridge (Name n) val s = Inr (s\<lparr>events := events s @ [Warned (Name n)]\<rparr>)"
  by (simp_all add: doOutboundBridge_def)

text \<open>
  Claim C7, where the code fails it. The id \<^verbatim>\<open>'constructor'\<close> has no registered entry in any
  state of the runner, yet the lookup in the plain object finds the inherited property:
  no warning is logged, and the callback throws a \<^verbatim>\<open>TypeError\<close> into the engine, which
  goes on from there as after a callback that threw.
\<close>

theorem outbound_inherited_name_throws:
  "doOutboundBridge (Name ''constructor'') val s = Inl TypeError \<and>
   perform (CallOutbound (Name ''constructor'') val rest) s = perform (rest False) s"
  by (simp add: doOutboundBridge_def objectPrototype_def)

subsection \<open>The sealer\<close>

lemma sealerRun_inv:
  "sealerRun ops st = (boxes, st') \<Longrightarrow> dom (unsealMap st) \<subseteq> {..<length (heap st)} \<Longrightarrow>
     dom (unsealMap st') \<subseteq> {..<length (heap st')} \<and>
     length (heap st) \<le> length (heap st') \<and>
     (\<forall>a < length (heap st). unsealMap st' a = unsealMap st a) \<and>
     (\<forall>(b, x) \<in> set boxes. \<exists>a. b = Ref a \<and> length (heap st) \<le> a \<and> unsealMap st' a = Some x) \<and>
     (\<forall>a \<ge> length (heap st). Ref a \<notin> fst ` set boxes \<longrightarrow> unsealMap st' a = None)"
proof (induction ops arbitrary: st boxes)
  case Nil
  then show ?case by auto
next
  case (Cons op ops)
  show ?case
  proof (cases op)
    case (Seal original label)
    let ?a = "length (heap st)"
    let ?st1 = "snd (seal original label st)"
    obtain bs where run: "sealerRun ops ?st1 = (bs, st')" and boxes: "boxes = (Ref ?a, original) # bs"
      using Cons.prems(1) Seal by (auto simp: seal_def Let_def split: prod.splits)
    have h1: "heap ?st1 = heap st @ [[(''type'', Str ''sealed''), (''label'', label)]]"
      and m1: "unsealMap ?st1 = (unsealMap st)(?a \<mapsto> original)"
      by (simp_all add: seal_def Let_def)
    have dom1: "dom (unsealMap ?st1) \<subseteq> {..<length (heap ?st1)}"
      using Cons.prems(2) by (auto simp: h1 m1)
    note IH = Cons.IH [OF run dom1]
    have len1: "length (heap ?st1) = Suc ?a" by (simp add: h1)
    have keep: "unsealMap st' ?a = Some original"
      using IH by (simp add: len1 m1)
    have old: "\<forall>a < ?a. unsealMap st' a = unsealMap st a"
      using IH by (simp add: len1 m1)
    have bsprop: "\<forall>(b, x) \<in> set bs. \<exists>a. b = Ref a \<and> Suc ?a \<le> a \<and> unsealMap st' a = Some x"
      using IH by (simp add: len1)
    have fresh: "\<forall>a \<ge> Suc ?a. Ref a \<notin> fst ` set bs \<longrightarrow> unsealMap st' a = None"
      using IH by (simp add: len1)
    show ?thesis
      using IH keep old bsprop fresh unfolding boxes len1
      by (auto simp: le_Suc_eq)
  next
    case (NewObject ob)
    let ?st1 = "st\<lparr>heap := heap st @ [ob]\<rparr>"
    have run: "sealerRun ops ?st1 = (boxes, st')" using Cons.prems(1) NewObject by simp
    have dom1: "dom (unsealMap ?st1) \<subseteq> {..<length (heap ?st1)}"
      using Cons.prems(2) by auto
    note IH = Cons.IH [OF run dom1]
    have none: "unsealMap st (length (heap st)) = None"
      using Cons.prems(2) by (auto simp: domIff subset_iff)
    have len1: "length (heap ?st1) = Suc (length (heap st))" by simp
    have m1: "unsealMap ?st1 = unsealMap st" by simp
    have a1: "dom (unsealMap st') \<subseteq> {..<length (heap st')}" using IH by blast
    have a2: "length (heap st) \<le> length (heap st')" using IH by (simp add: len1)
    have a3: "\<forall>a < Suc (length (heap st)). unsealMap st' a = unsealMap st a"
      using IH unfolding len1 m1 by blast
    have a4: "\<forall>(b, x) \<in> set boxes. \<exists>a. b = Ref a \<and> Suc (length (heap st)) \<le> a \<and> unsealMap st' a = Some x"
      using IH unfolding len1 by blast
    have a5: "\<forall>a \<ge> Suc (length (heap st)). Ref a \<notin> fst ` set boxes \<longrightarrow> unsealMap st' a = None"
      using IH unfolding len1 by blast
    have b5: "\<forall>a \<ge> length (heap st). Ref a \<notin> fst ` set boxes \<longrightarrow> unsealMap st' a = None"
    proof (intro allI impI)
      fix a assume "length (heap st) \<le> a" "Ref a \<notin> fst ` set boxes"
      then show "unsealMap st' a = None"
        using a3 a5 none by (cases "a = length (heap st)") auto
    qed
    have b4: "\<forall>(b, x) \<in> set boxes. \<exists>a. b = Ref a \<and> length (heap st) \<le> a \<and> unsealMap st' a = Some x"
      using a4 by (fastforce simp: Suc_le_eq)
    show ?thesis using a1 a2 a3 b4 b5 by simp
  qed
qed

text \<open>
  Claim C10. For every value \<open>x\<close> and every label, unsealing the box that \<^verbatim>\<open>seal\<close> just made
  gives \<open>x\<close> back. After any run of a sealer made by \<^verbatim>\<open>makeSealer\<close>, every box it produced
  still unseals to the value sealed in it, and \<^verbatim>\<open>unseal\<close> of any other value (an object that
  this sealer's \<^verbatim>\<open>seal\<close> did not produce, or a value that is no object) is \<^verbatim>\<open>undefined\<close>.
\<close>

theorem sealer_roundtrip:
  "unseal (fst (seal x label st0)) (snd (seal x label st0)) = x \<and>
   (sealerRun ops (makeSealer h) = (boxes, st) \<longrightarrow>
      (\<forall>(b, y) \<in> set boxes. unseal b st = y) \<and>
      (\<forall>v. v \<notin> fst ` set boxes \<longrightarrow> unseal v st = Undefined))"
proof (intro conjI impI)
  show "unseal (fst (seal x label st0)) (snd (seal x label st0)) = x"
    by (simp add: seal_def unseal_def Let_def)
next
  assume run: "sealerRun ops (makeSealer h) = (boxes, st)"
  have d: "dom (unsealMap (makeSealer h)) \<subseteq> {..<length (heap (makeSealer h))}"
    by (simp add: makeSealer_def)
  note inv = sealerRun_inv [OF run d]
  show "\<forall>(b, y) \<in> set boxes. unseal b st = y"
    using inv by (fastforce simp: unseal_def)
  show "\<forall>v. v \<notin> fst ` set boxes \<longrightarrow> unseal v st = Undefined"
  proof (intro allI impI)
    fix v assume v: "v \<notin> fst ` set boxes"
    show "unseal v st = Undefined"
    proof (cases v)
      case (Ref a)
      have "unsealMap st a = None"
      proof (cases "a < length h")
        case True
        then show ?thesis using inv by (simp add: makeSealer_def)
      next
        case False
        then show ?thesis using inv v Ref by (simp add: makeSealer_def)
      qed
      then show ?thesis using Ref by (simp add: unseal_def)
    qed (simp_all add: unseal_def)
  qed
qed

theorem sealer_roundtrip_witness:
  "sealerRun [Seal (Num 7) (Str ''a''), NewObject [], Seal Undefined (Str ''b'')] (makeSealer [[]])
     = ([(Ref 1, Num 7), (Ref 3, Undefined)],
        snd (sealerRun [Seal (Num 7) (Str ''a''), NewObject [], Seal Undefined (Str ''b'')] (makeSealer [[]]))) \<and>
   unseal (Ref 1) (snd (sealerRun [Seal (Num 7) (Str ''a''), NewObject [], Seal Undefined (Str ''b'')] (makeSealer [[]]))) = Num 7 \<and>
   unseal (Ref 2) (snd (sealerRun [Seal (Num 7) (Str ''a''), NewObject [], Seal Undefined (Str ''b'')] (makeSealer [[]]))) = Undefined"
proof -
  let ?ops = "[Seal (Num 7) (Str ''a''), NewObject [], Seal Undefined (Str ''b'')]"
  have run: "sealerRun ?ops (makeSealer [[]]) = ([(Ref 1, Num 7), (Ref 3, Undefined)], snd (sealerRun ?ops (makeSealer [[]])))"
    by (simp add: makeSealer_def seal_def Let_def)
  from sealer_roundtrip [of "Num 7" "Str ''a''" "makeSealer [[]]" ?ops "[[]]"
      "[(Ref 1, Num 7), (Ref 3, Undefined)]" "snd (sealerRun ?ops (makeSealer [[]]))"] run
  show ?thesis by simp
qed

end
